theory Spec2Isabelle
  imports Main "HOL-Library.Signed_Division"
begin

section \<open>Data model\<close>

text \<open>
  The embedding follows the Go program of revision 2.3 (the variant with lock-free cell
  claims). Cell states are the constants \<^verbatim>\<open>path = 0, wall = 1, solved = 2, tried = 3,
  check = 4\<close> of the source.
\<close>

datatype cell = Path | Wall | Solved | Tried | Check

text \<open>\<^verbatim>\<open>type dirTable struct { x, y, heading int }\<close>; headings are
  \<^verbatim>\<open>up = 1, down = 2, left = 3, right = 4\<close>.\<close>

record dirTable =
  dir_x :: int
  dir_y :: int
  dir_heading :: int

definition stdDirection :: "dirTable list" where
  "stdDirection =
     [\<lparr>dir_x = 2, dir_y = 0, dir_heading = 2\<rparr>,
      \<lparr>dir_x = - 2, dir_y = 0, dir_heading = 1\<rparr>,
      \<lparr>dir_x = 0, dir_y = 2, dir_heading = 4\<rparr>,
      \<lparr>dir_x = 0, dir_y = - 2, dir_heading = 3\<rparr>]"

text \<open>
  The global variables of the program that the core reads or writes. The array
  \<^verbatim>\<open>maze\<close> is a total function on coordinates (the source array is
  \<^verbatim>\<open>[203][603]int32\<close>, zero, that is \<^verbatim>\<open>path\<close>, where never written); the
  pseudo random generator is the list of the draws still to come.
  Variables that only drive the display (delay, fps, checkFlag, dspLength, dspNumChecks)
  are left out. Two components are not variables of the program: \<open>sched\<close>, the choices
  of the Go scheduler still to come (read where several solver tasks run), and
  \<open>probes\<close>, a counter for the proofs that no function reads: it counts the probe steps
  of \<^verbatim>\<open>checkDirections\<close>.
\<close>

record state =
  maze :: "int \<times> int \<Rightarrow> cell"
  rnd :: "nat list"
  height :: int
  width :: int
  threads :: int
  depth :: int
  maxX :: int
  maxY :: int
  begX :: int
  endX :: int
  begY :: int
  endY :: int
  solvedFlag :: bool
  mazeLen :: int
  pathLen :: int
  turnCnt :: int
  numPaths :: int
  numSolves :: int
  numThreads :: int
  numWallPush :: int
  numCheckExceeded :: int
  maxChecks :: int
  solveLength :: int
  sumsolveLength :: int
  sched :: "nat list"
  probes :: int

text \<open>
  The counters are \<^verbatim>\<open>int32\<close> and change by \<^verbatim>\<open>atomic.AddInt32\<close>
  (\<^verbatim>\<open>incInt, decInt, addInt\<close>), which wraps around: \<open>int32 n\<close> is the value of
  the Go conversion \<^verbatim>\<open>int32(n)\<close>.
\<close>

definition int32 :: "int \<Rightarrow> int" where
  "int32 n = (n + 2147483648) mod 4294967296 - 2147483648"

definition getMaze :: "state \<Rightarrow> int \<Rightarrow> int \<Rightarrow> cell" where
  "getMaze s x y = maze s (x, y)"

definition setMaze :: "state \<Rightarrow> int \<Rightarrow> int \<Rightarrow> cell \<Rightarrow> state" where
  "setMaze s x y v = s\<lparr>maze := (maze s)((x, y) := v)\<rparr>"

text \<open>\<^verbatim>\<open>rand.Intn(n)\<close>: the next draw, reduced to \<open>[0, n)\<close>.\<close>

definition randIntn :: "nat \<Rightarrow> state \<Rightarrow> nat \<times> state" where
  "randIntn n s = (case rnd s of [] \<Rightarrow> (0, s) | r # rs \<Rightarrow> (r mod n, s\<lparr>rnd := rs\<rparr>))"

subsection \<open>The cell claim\<close>

text \<open>
  \<^verbatim>\<open>setCell(x, y, value)\<close> performs up to four atomic operations on one cell: two
  loads (the guard \<^verbatim>\<open>getMaze(x, y) == check || getMaze(x, y) == value\<close>), one swap
  (\<^verbatim>\<open>priorValue := setMaze(x, y, value)\<close>) and the write-back
  \<^verbatim>\<open>setMaze(x, y, check)\<close>. \<open>setCell_op\<close> is one such operation: it takes the
  point the call has reached and the content of the cell, and gives the next point and
  the new content. (The display update before \<^verbatim>\<open>return true\<close> is left out.)
\<close>

datatype setCellPc = Guard1 | Guard2 | Swap | WriteBack | Return bool

fun setCell_op :: "cell \<Rightarrow> setCellPc \<times> cell \<Rightarrow> setCellPc \<times> cell" where
  "setCell_op v (Guard1, c) = ((if c = Check then Return False else Guard2), c)"
| "setCell_op v (Guard2, c) = ((if c = v then Return False else Swap), c)"
| "setCell_op v (Swap, c) =
     ((if c = Check then WriteBack else if c = v then Return False else Return True), v)"
| "setCell_op v (WriteBack, c) = (Return False, Check)"
| "setCell_op v (Return b, c) = (Return b, c)"

text \<open>
  Between two operations of the call other tasks may store to the cell. A run of
  \<^verbatim>\<open>setCell\<close> on one cell is a list of events: \<open>Own\<close>, the next operation of the
  call, or \<open>Other w\<close>, a store of \<open>w\<close> by another task.
\<close>

datatype event = Own | Other cell

fun setCell_run :: "cell \<Rightarrow> event list \<Rightarrow> setCellPc \<times> cell \<Rightarrow> setCellPc \<times> cell" where
  "setCell_run v [] st = st"
| "setCell_run v (Own # es) st = setCell_run v es (setCell_op v st)"
| "setCell_run v (Other w # es) st = setCell_run v es (fst st, w)"

text \<open>With a single task the call runs its operations with no store in between.\<close>

definition setCell :: "state \<Rightarrow> int \<Rightarrow> int \<Rightarrow> cell \<Rightarrow> bool \<times> state" where
  "setCell s x y v =
     (case setCell_run v [Own, Own, Own, Own] (Guard1, getMaze s x y) of
        (pc, c) \<Rightarrow> (pc = Return True, setMaze s x y c))"

subsection \<open>Lookahead search and orphan check\<close>

definition orphan1x1 :: "state \<Rightarrow> int \<Rightarrow> int \<Rightarrow> bool" where
  "orphan1x1 s x y \<longleftrightarrow>
     x > 1 \<and> y > 1 \<and>
     getMaze s (x + 1) y = Wall \<and> getMaze s (x + 2) y = Path \<and>
     getMaze s (x - 1) y = Wall \<and> getMaze s (x - 2) y = Path \<and>
     getMaze s x (y + 1) = Wall \<and> getMaze s x (y + 2) = Path \<and>
     getMaze s x (y - 1) = Wall \<and> getMaze s x (y - 2) = Path"

text \<open>Go's \<^verbatim>\<open>dx/2\<close> truncates towards zero: \<open>sdiv\<close>.\<close>

definition checkOrphan :: "state \<Rightarrow> int \<Rightarrow> int \<Rightarrow> int \<Rightarrow> int \<Rightarrow> int \<Rightarrow> bool \<times> state" where
  "checkOrphan s x y dx dy len =
     (if x > 1 \<and> y > 1 \<and> len > 0 \<and> len = depth s \<and>
         getMaze s (x + dx) (y + dy) = Wall \<and>
         getMaze s (x + dx sdiv 2) (y + dy sdiv 2) = Wall
      then
        (case setCell s (x + dx) (y + dy) Path of
           (False, s1) \<Rightarrow> (False, s1)
         | (True, s1) \<Rightarrow>
             (case setCell s1 (x + dx sdiv 2) (y + dy sdiv 2) Path of
                (False, s2) \<Rightarrow> (False, s2)
              | (True, s2) \<Rightarrow>
                  (let orphan = (orphan1x1 s2 (x + dx + 2) (y + dy) \<or>
                                 orphan1x1 s2 (x + dx - 2) (y + dy) \<or>
                                 orphan1x1 s2 (x + dx) (y + dy + 2) \<or>
                                 orphan1x1 s2 (x + dx) (y + dy - 2));
                       s3 = setMaze s2 (x + dx) (y + dy) Wall;
                       s4 = setMaze s3 (x + dx sdiv 2) (y + dy sdiv 2) Wall
                   in (orphan, s4))))
      else (False, s))"

text \<open>
  \<^verbatim>\<open>checkDirections\<close> with its \<^verbatim>\<open>for i := 0; i < 4; i++\<close> loop as
  \<open>checkLoop\<close> over the rotated direction table (\<open>idx4\<close> are the values of \<open>i\<close>). The parameters passed by pointer
  (\<^verbatim>\<open>length, minLength, checks, numChecks\<close>) are returned with the result, in this
  order, before the state. A probe step is the part from \<^verbatim>\<open>*length--\<close> on, reached
  when both cells are claimed: there \<open>probes\<close> grows by one.
\<close>

definition idx4 :: "nat list" where
  "idx4 = [0, 1, 2, 3]"

definition rotated :: "nat \<Rightarrow> dirTable list" where
  "rotated offset = map (\<lambda>i. stdDirection ! ((i + offset) mod 4)) idx4"

function checkDirections ::
    "state \<Rightarrow> int \<Rightarrow> int \<Rightarrow> int \<Rightarrow> int \<Rightarrow> int \<Rightarrow> cell \<Rightarrow> int \<Rightarrow> int \<Rightarrow> int \<Rightarrow> int
      \<Rightarrow> bool \<times> int \<times> int \<times> int \<times> int \<times> state"
  and checkLoop ::
    "state \<Rightarrow> int \<Rightarrow> int \<Rightarrow> int \<Rightarrow> cell \<Rightarrow> int \<Rightarrow> int \<Rightarrow> int \<Rightarrow> int \<Rightarrow> dirTable list
      \<Rightarrow> bool \<times> int \<times> int \<times> int \<times> int \<times> state"
where
  "checkDirections s x y dx dy limit v len minLength checks numChecks =
     (if len < 0 then (True, len, minLength, checks, numChecks, s)
      else if checks \<ge> limit then
        (False, len, minLength, checks, numChecks,
         s\<lparr>numCheckExceeded := int32 (numCheckExceeded s + 1)\<rparr>)
      else if x + dx < 0 \<or> y + dy < 0 \<or> getMaze s (x + dx) (y + dy) \<noteq> v then
        (False, len, minLength, checks, numChecks, s)
      else
        (case setCell s (x + dx sdiv 2) (y + dy sdiv 2) Check of
           (False, s1) \<Rightarrow> (False, len, minLength, checks, numChecks, s1)
         | (True, s1) \<Rightarrow>
             (case setCell s1 (x + dx) (y + dy) Check of
                (False, s2) \<Rightarrow>
                  (False, len, minLength, checks, numChecks,
                   setMaze s2 (x + dx sdiv 2) (y + dy sdiv 2) v)
              | (True, s2) \<Rightarrow>
                  (case randIntn 4 (s2\<lparr>probes := probes s2 + 1\<rparr>) of
                     (offset, s3) \<Rightarrow>
                       (case checkLoop s3 (x + dx) (y + dy) limit v (len - 1) minLength
                               (checks + 1) (numChecks + 1) (rotated offset) of
                          (match, len', minLength', checks', numChecks', s4) \<Rightarrow>
                            (match, len' + 1,
                             (if minLength' > len' then len' else minLength'),
                             checks', numChecks',
                             setMaze (setMaze s4 (x + dx) (y + dy) v)
                               (x + dx sdiv 2) (y + dy sdiv 2) v))))))"
| "checkLoop s x y limit v len minLength checks numChecks [] =
     (False, len, minLength, checks, numChecks, s)"
| "checkLoop s x y limit v len minLength checks numChecks (d # ds) =
     (if getMaze s (x + dir_x d sdiv 2) (y + dir_y d sdiv 2) = v \<and>
         getMaze s (x + dir_x d) (y + dir_y d) = v
      then
        (case checkDirections s x y (dir_x d) (dir_y d) limit v len minLength checks numChecks of
           (True, dirLength, minLength', checks', numChecks', s') \<Rightarrow>
             (True, dirLength, minLength', checks', numChecks', s')
         | (False, dirLength, minLength', checks', numChecks', s') \<Rightarrow>
             checkLoop s' x y limit v len minLength' checks' numChecks' ds)
      else checkLoop s x y limit v len minLength checks numChecks ds)"
  by pat_completeness auto
termination
  by (relation "inv_image (less_than <*lex*> less_than)
        (\<lambda>a. case a of
           Inl (s, x, y, dx, dy, limit, v, len, r) \<Rightarrow> (2 * nat (len + 1), 0)
         | Inr (s, x, y, limit, v, len, minLength, checks, numChecks, ds) \<Rightarrow>
             (2 * nat (len + 1) + 1, length ds))")
     auto


text \<open>
  \<^verbatim>\<open>look\<close> returns 0 or 1, the direction table (entry \<open>num\<close> written on
  success) and the three parameters it passes on by pointer. Its local counter
  \<^verbatim>\<open>checks := 0\<close> and the budget \<^verbatim>\<open>10*(getInt(&depth) + 1)\<close> are the arguments of
  the call to \<open>checkDirections\<close>.
\<close>

definition look ::
    "int \<Rightarrow> int \<Rightarrow> int \<Rightarrow> int \<Rightarrow> int \<Rightarrow> nat \<Rightarrow> cell \<Rightarrow> dirTable list \<Rightarrow> int \<Rightarrow> int \<Rightarrow> int \<Rightarrow> state
      \<Rightarrow> nat \<times> dirTable list \<times> int \<times> int \<times> int \<times> state" where
  "look hdg x y dx dy num v directions len minLength numChecks s =
     (if x > 1 \<and> y > 1 \<and>
         getMaze s (x + dx sdiv 2) (y + dy sdiv 2) = v \<and>
         getMaze s (x + dx) (y + dy) = v
      then
        (case checkOrphan s x y dx dy len of
           (True, s1) \<Rightarrow> (0, directions, len, minLength, numChecks, s1)
         | (False, s1) \<Rightarrow>
             (case checkDirections s1 x y dx dy (10 * (depth s1 + 1)) v len minLength 0 numChecks of
                (True, len', minLength', checks', numChecks', s2) \<Rightarrow>
                  (1, directions[num := \<lparr>dir_x = dx, dir_y = dy, dir_heading = hdg\<rparr>],
                   len', minLength', numChecks', s2)
              | (False, len', minLength', checks', numChecks', s2) \<Rightarrow>
                  (0, directions, len', minLength', numChecks', s2)))
      else (0, directions, len, minLength, numChecks, s))"

text \<open>
  The loop \<^verbatim>\<open>for i := 0; i < 4; i++ { num += look(...) }\<close> of \<^verbatim>\<open>findDirections\<close>;
  \<open>minLength\<close> is the array \<^verbatim>\<open>[4]int\<close>, \<open>cur\<close> the local \<^verbatim>\<open>len\<close> every
  \<^verbatim>\<open>dirLength[i]\<close> starts from.
\<close>

fun lookLoop ::
    "int \<Rightarrow> int \<Rightarrow> cell \<Rightarrow> int \<Rightarrow> nat \<Rightarrow> nat list
      \<Rightarrow> nat \<times> dirTable list \<times> int list \<times> int \<times> state
      \<Rightarrow> nat \<times> dirTable list \<times> int list \<times> int \<times> state" where
  "lookLoop x y v cur offset [] acc = acc"
| "lookLoop x y v cur offset (i # is) (num, directions, minLength, numChecks, s) =
     (let dir = stdDirection ! ((i + offset) mod 4) in
      case look (dir_heading dir) x y (dir_x dir) (dir_y dir) num v directions cur
             (minLength ! i) numChecks s of
        (r, directions', dirLength, ml, numChecks', s') \<Rightarrow>
          lookLoop x y v cur offset is
            (num + r, directions', minLength[i := ml], numChecks', s'))"

text \<open>The outer \<^verbatim>\<open>for { ... }\<close> of \<^verbatim>\<open>findDirections\<close>: it ends when a direction
  was found or \<open>cur < 0\<close>, and otherwise shrinks \<open>cur\<close> by \<open>shortfall\<close>, the least
  \<open>minLength\<close> (the inner \<^verbatim>\<open>minLength := min(...)\<close>), at least 1.\<close>

definition shortfall :: "int list \<Rightarrow> int" where
  "shortfall minLength =
     (let m = min (min (minLength ! 0) (minLength ! 1)) (min (minLength ! 2) (minLength ! 3))
      in if m \<le> 0 then 1 else m)"

function findLoop ::
    "int \<Rightarrow> int \<Rightarrow> cell \<Rightarrow> int \<Rightarrow> nat \<times> dirTable list \<times> int list \<times> int \<times> state
      \<Rightarrow> int \<times> nat \<times> dirTable list \<times> int list \<times> int \<times> state" where
  "findLoop x y v cur (num, directions, minLength, numChecks, s) =
     (case randIntn 4 s of
        (offset, s1) \<Rightarrow>
          (case lookLoop x y v cur offset idx4 (num, directions, minLength, numChecks, s1) of
             (num', directions', minLength', numChecks', s2) \<Rightarrow>
               if num' > 0 \<or> cur < 0 then (cur, num', directions', minLength', numChecks', s2)
               else findLoop x y v (cur - shortfall minLength')
                      (num', directions', minLength', numChecks', s2)))"
  by pat_completeness auto
termination
  by (relation "measure (\<lambda>(x, y, v, cur, acc). nat (cur + 1))")
     (auto simp: shortfall_def Let_def)

declare checkDirections.simps [simp del]
declare findLoop.simps [simp del]

text \<open>\<^verbatim>\<open>findDirections\<close> returns \<open>num\<close>, the updated \<^verbatim>\<open>*length\<close>, the direction
  table and the state.\<close>

definition findDirections ::
    "state \<Rightarrow> int \<Rightarrow> int \<Rightarrow> int \<Rightarrow> cell \<Rightarrow> dirTable list
      \<Rightarrow> nat \<times> int \<times> dirTable list \<times> state" where
  "findDirections s x y len v directions =
     (case (if v \<noteq> Wall then (True, s)
            else if getMaze s x y = Path then setCell s x y Check
            else (False, s)) of
        (False, s1) \<Rightarrow>
          (0, len, directions, (if maxChecks s1 < 0 then s1\<lparr>maxChecks := 0\<rparr> else s1))
      | (True, s1) \<Rightarrow>
          (case findLoop x y v len (0, directions, [len, len, len, len], 0, s1) of
             (cur, num, directions', minLength, numChecks, s2) \<Rightarrow>
               (let cur' = (if cur = len \<and> cur < depth s2 then cur + 1 else cur);
                    s3 = (if getMaze s2 x y = Check then setMaze s2 x y Path else s2)
                in (num, cur', directions',
                    (if maxChecks s3 < numChecks then s3\<lparr>maxChecks := numChecks\<rparr> else s3)))))"

section \<open>Carving\<close>

text \<open>
  The program state when \<^verbatim>\<open>main\<close> enters its loop: every global is zero (so every cell
  of the array is \<^verbatim>\<open>path\<close>), the flags \<^verbatim>\<open>height, width, threads, depth\<close> are parsed
  and clamped, and the generator is seeded.
\<close>

definition startState :: "int \<Rightarrow> int \<Rightarrow> int \<Rightarrow> int \<Rightarrow> nat list \<Rightarrow> state" where
  "startState h w t d r =
     \<lparr>maze = (\<lambda>c. Path), rnd = r, height = h, width = w, threads = t, depth = d,
      maxX = 0, maxY = 0, begX = 0, endX = 0, begY = 0, endY = 0, solvedFlag = False,
      mazeLen = 0, pathLen = 0, turnCnt = 0, numPaths = 0, numSolves = 0, numThreads = 0,
      numWallPush = 0, numCheckExceeded = 0, maxChecks = 0, solveLength = 0,
      sumsolveLength = 0, sched = [], probes = 0\<rparr>"

text \<open>
  \<^verbatim>\<open>initializeMaze\<close>: the three loops as folds over the index ranges. It returns the
  random start room \<^verbatim>\<open>(*x, *y)\<close> with the state. (\<^verbatim>\<open>rand.Intn\<close> panics for an
  argument that is not positive; \<^verbatim>\<open>main\<close> clamps height and width to at least 1.)
\<close>

definition fillWalls :: "state \<Rightarrow> state" where
  "fillWalls s =
     fold (\<lambda>i t. fold (\<lambda>j u. setMaze u i j Wall) [1 .. maxY s - 2] t) [1 .. maxX s - 2] s"

definition borderColumns :: "state \<Rightarrow> state" where
  "borderColumns s =
     fold (\<lambda>i t. setMaze (setMaze t i 0 Path) i (2 * (width s + 1)) Path) [0 .. maxX s - 1] s"

definition borderRows :: "state \<Rightarrow> state" where
  "borderRows s =
     fold (\<lambda>j t. setMaze (setMaze t 0 j Path) (2 * (height s + 1)) j Path) [0 .. maxY s - 1] s"

definition initializeMaze :: "state \<Rightarrow> int \<times> int \<times> state" where
  "initializeMaze s =
     (let s1 = s\<lparr>maxChecks := 0, mazeLen := 0, numThreads := 0, numPaths := 0,
                 numCheckExceeded := 0,
                 maxX := 2 * (height s + 1) + 1, maxY := 2 * (width s + 1) + 1\<rparr>;
          s2 = borderRows (borderColumns (fillWalls s1))
      in case randIntn (nat (height s2)) s2 of
           (rx, s3) \<Rightarrow>
             (case randIntn (nat (width s3)) s3 of
                (ry, s4) \<Rightarrow>
                  (2 * (int rx + 1), 2 * (int ry + 1), s4\<lparr>begX := 2, endX := 2 * height s4\<rparr>)))"

definition restoreMaze :: "state \<Rightarrow> state" where
  "restoreMaze s =
     fold (\<lambda>i t. fold (\<lambda>j u. if getMaze u i j = Solved \<or> getMaze u i j = Tried
                               then setMaze u i j Path else u) [0 .. maxY s - 1] t)
       [0 .. maxX s - 1] s"

definition straightThru :: "state \<Rightarrow> int \<Rightarrow> int \<Rightarrow> cell \<Rightarrow> bool" where
  "straightThru s x y v \<longleftrightarrow>
     x > 1 \<and> y > 1 \<and>
     ((getMaze s (x - 1) y = v \<and> getMaze s (x - 2) y = v \<and>
       getMaze s (x + 1) y = v \<and> getMaze s (x + 2) y = v) \<or>
      (getMaze s x (y - 1) = v \<and> getMaze s x (y - 2) = v \<and>
       getMaze s x (y + 1) = v \<and> getMaze s x (y + 2) = v))"

text \<open>\<^verbatim>\<open>make([]dirTable, 4, 4)\<close>\<close>

definition newDirections :: "dirTable list" where
  "newDirections = replicate 4 \<lparr>dir_x = 0, dir_y = 0, dir_heading = 0\<rparr>"

text \<open>
  \<^verbatim>\<open>findPathStart\<close>: the two nested loops run over \<open>scanOrder\<close>, the pairs \<open>(i, j)\<close> in
  row-major order; \<open>len\<close> is the local \<^verbatim>\<open>length\<close> (starting at -1) that every call to
  \<^verbatim>\<open>findDirections\<close> may change. The result is the flag, \<^verbatim>\<open>*x\<close>, \<^verbatim>\<open>*y\<close> and the
  state.
\<close>

definition scanOrder :: "state \<Rightarrow> (int \<times> int) list" where
  "scanOrder s = concat (map (\<lambda>i. map (\<lambda>j. (i, j)) [0 .. width s - 1]) [0 .. height s - 1])"

fun pathStartLoop ::
    "int \<Rightarrow> int \<Rightarrow> (int \<times> int) list \<Rightarrow> int \<Rightarrow> int \<Rightarrow> int \<Rightarrow> dirTable list \<Rightarrow> state
      \<Rightarrow> bool \<times> int \<times> int \<times> state" where
  "pathStartLoop xStart yStart [] x y len directions s = (False, x, y, s)"
| "pathStartLoop xStart yStart ((i, j) # rest) x y len directions s =
     (let x' = 2 * ((xStart + i) mod height s + 1);
          y' = 2 * ((yStart + j) mod width s + 1)
      in if getMaze s x' y' = Path \<and> \<not> straightThru s x' y' Path then
           (case findDirections s x' y' len Wall directions of
              (num, len', directions', s') \<Rightarrow>
                if num > 0 then (True, x', y', s')
                else pathStartLoop xStart yStart rest x' y' len' directions' s')
         else pathStartLoop xStart yStart rest x' y' len directions s)"

definition findPathStart :: "int \<Rightarrow> int \<Rightarrow> state \<Rightarrow> bool \<times> int \<times> int \<times> state" where
  "findPathStart x y s =
     (case randIntn (nat (height s)) s of
        (xStart, s1) \<Rightarrow>
          (case randIntn (nat (width s1)) s1 of
             (yStart, s2) \<Rightarrow>
               pathStartLoop (int xStart) (int yStart) (scanOrder s2) x y (- 1) newDirections s2))"

text \<open>
  The \<^verbatim>\<open>for { ... }\<close> of \<^verbatim>\<open>carvePath\<close> ends when \<^verbatim>\<open>findDirections\<close> finds no
  direction; a failed claim repeats the query (\<^verbatim>\<open>continue\<close>), so the source gives no
  bound on the number of rounds: the first argument is fuel, and \<open>None\<close> means that the
  loop was still running when it ran out. The result is \<^verbatim>\<open>*x\<close>, \<^verbatim>\<open>*y\<close>,
  \<^verbatim>\<open>pathLength\<close> and the state.
\<close>

fun carveLoop ::
    "nat \<Rightarrow> int \<Rightarrow> int \<Rightarrow> int \<Rightarrow> dirTable list \<Rightarrow> int \<Rightarrow> state
      \<Rightarrow> (int \<times> int \<times> int \<times> state) option" where
  "carveLoop 0 x y len directions pathLength s = None"
| "carveLoop (Suc n) x y len directions pathLength s =
     (case findDirections s x y len Wall directions of
        (num, len', directions', s1) \<Rightarrow>
          if num = 0 then Some (x, y, pathLength, s1)
          else
            (case randIntn num s1 of
               (dir, s2) \<Rightarrow>
                 (let d = directions' ! dir in
                  case setCell s2 (x + dir_x d sdiv 2) (y + dir_y d sdiv 2) Path of
                    (False, s3) \<Rightarrow> carveLoop n x y len' directions' pathLength s3
                  | (True, s3) \<Rightarrow>
                      (case setCell s3 (x + dir_x d) (y + dir_y d) Path of
                         (False, s4) \<Rightarrow>
                           carveLoop n x y len' directions' pathLength
                             (snd (setCell s4 (x + dir_x d sdiv 2) (y + dir_y d sdiv 2) Wall))
                       | (True, s4) \<Rightarrow>
                           carveLoop n (x + dir_x d) (y + dir_y d) len' directions'
                             (pathLength + 1) (s4\<lparr>mazeLen := int32 (mazeLen s4 + 1)\<rparr>)))))"

text \<open>
  \<^verbatim>\<open>carvePath\<close>. With \<^verbatim>\<open>numThreads < threads\<close> the source starts a goroutine
  (\<^verbatim>\<open>go carveRoutine()\<close>); the model counts it and does not run it, so it is the
  program for \<^verbatim>\<open>threads = 0\<close>, a single carving task.
\<close>

definition carvePath :: "nat \<Rightarrow> int \<Rightarrow> int \<Rightarrow> state \<Rightarrow> (bool \<times> int \<times> int \<times> state) option" where
  "carvePath fuel x y s =
     (let s1 = s\<lparr>numPaths := int32 (numPaths s + 1)\<rparr>;
          s2 = snd (setCell s1 x y Path)
      in case carveLoop fuel x y (depth s2) newDirections 0 s2 of
           None \<Rightarrow> None
         | Some (x', y', pathLength, s3) \<Rightarrow>
             Some (pathLength > 0, x', y',
                   (if numThreads s3 < threads s3 then s3\<lparr>numThreads := int32 (numThreads s3 + 1)\<rparr>
                    else s3)))"

text \<open>\<^verbatim>\<open>carvePaths\<close>: \<^verbatim>\<open>for findPathStart(&x, &y) && carvePath(&x, &y) { }\<close>, on
  fuel.\<close>

fun carvePathsLoop :: "nat \<Rightarrow> int \<Rightarrow> int \<Rightarrow> state \<Rightarrow> state option" where
  "carvePathsLoop 0 x y s = None"
| "carvePathsLoop (Suc n) x y s =
     (case findPathStart x y s of
        (False, x', y', s') \<Rightarrow> Some s'
      | (True, x', y', s') \<Rightarrow>
          (case carvePath n x' y' s' of
             None \<Rightarrow> None
           | Some (False, x'', y'', s'') \<Rightarrow> Some s''
           | Some (True, x'', y'', s'') \<Rightarrow> carvePathsLoop n x'' y'' s''))"

definition carvePaths :: "nat \<Rightarrow> int \<Rightarrow> int \<Rightarrow> state \<Rightarrow> state option" where
  "carvePaths fuel x y s =
     (if x > 0 \<and> y > 0 then
        (case carvePath fuel x y s of
           None \<Rightarrow> None
         | Some (b, x', y', s') \<Rightarrow> carvePathsLoop fuel x' y' s')
      else carvePathsLoop fuel x y s)"

section \<open>Wall-opening normalizer\<close>

definition midWallOpening :: "state \<Rightarrow> int \<Rightarrow> int \<Rightarrow> bool" where
  "midWallOpening s x y \<longleftrightarrow>
     x > 0 \<and> y > 0 \<and>
     getMaze s x y = Path \<and>
     getMaze s (x - 1) (y - 1) \<noteq> Wall \<and>
     getMaze s (x - 1) (y + 1) \<noteq> Wall \<and>
     getMaze s (x + 1) (y - 1) \<noteq> Wall \<and>
     getMaze s (x + 1) (y + 1) \<noteq> Wall"

text \<open>
  The cells one sweep of \<^verbatim>\<open>pushMidWallOpenings\<close> visits, in its order:
  \<^verbatim>\<open>for i := 1; i < 2*(height + 1); i++ { for j := (i & 1) + 1; j < 2*(width + 1); j += 2\<close>.
\<close>

definition sweepRow :: "state \<Rightarrow> int \<Rightarrow> (int \<times> int) list" where
  "sweepRow s i =
     map (\<lambda>j. (i, j))
       (filter (\<lambda>j. (j - (i mod 2 + 1)) mod 2 = 0) [i mod 2 + 1 .. 2 * (width s + 1) - 1])"

definition sweepCells :: "state \<Rightarrow> (int \<times> int) list" where
  "sweepCells s = concat (map (sweepRow s) [1 .. 2 * (height s + 1) - 1])"

text \<open>The body of the inner loop: the local \<^verbatim>\<open>moves\<close> and the state.\<close>

definition pushStep :: "int \<times> int \<Rightarrow> int \<times> state \<Rightarrow> int \<times> state" where
  "pushStep c acc =
     (case (c, acc) of
        ((i, j), (moves, s)) \<Rightarrow>
          if midWallOpening s i j then
            (let s1 = snd (setCell s i j Wall);
                 s2 = (if i mod 2 \<noteq> 0 then snd (setCell s1 i (j + 2) Path)
                       else snd (setCell s1 (i + 2) j Path))
             in (moves + 1, s2\<lparr>numWallPush := int32 (numWallPush s2 + 1)\<rparr>))
          else (moves, s))"

definition pushSweep :: "state \<Rightarrow> int \<times> state" where
  "pushSweep s = fold pushStep (sweepCells s) (0, s)"

text \<open>\<^verbatim>\<open>pushMidWallOpenings\<close>: sweeps until one sweep moves nothing; on fuel.\<close>

fun pushMidWallOpenings :: "nat \<Rightarrow> state \<Rightarrow> state option" where
  "pushMidWallOpenings 0 s = None"
| "pushMidWallOpenings (Suc n) s =
     (case pushSweep s of
        (moves, s') \<Rightarrow> if moves = 0 then Some s' else pushMidWallOpenings n s')"

section \<open>Solver\<close>

text \<open>
  \<^verbatim>\<open>followDir\<close> and \<^verbatim>\<open>unfollowDir\<close> receive \<^verbatim>\<open>lastDir\<close> by value: the assignment
  \<^verbatim>\<open>lastDir = direction.heading\<close> in their bodies never reaches the caller.
\<close>

definition followDir :: "state \<Rightarrow> int \<Rightarrow> int \<Rightarrow> dirTable \<Rightarrow> int \<Rightarrow> state" where
  "followDir s x y direction lastDir =
     (let s1 = snd (setCell s (x + dir_x direction sdiv 2) (y + dir_y direction sdiv 2) Solved);
          s2 = snd (setCell s1 (x + dir_x direction) (y + dir_y direction) Solved);
          s3 = s2\<lparr>pathLen := int32 (pathLen s2 + 1)\<rparr>
      in if lastDir \<noteq> dir_heading direction then s3\<lparr>turnCnt := int32 (turnCnt s3 + 1)\<rparr> else s3)"

definition unfollowDir :: "state \<Rightarrow> int \<Rightarrow> int \<Rightarrow> dirTable \<Rightarrow> int \<Rightarrow> state" where
  "unfollowDir s x y direction lastDir =
     (let s1 = snd (setCell s x y Tried);
          s2 = snd (setCell s1 (x + dir_x direction sdiv 2) (y + dir_y direction sdiv 2) Tried);
          s3 = s2\<lparr>pathLen := int32 (pathLen s2 - 1)\<rparr>
      in if lastDir \<noteq> dir_heading direction then s3\<lparr>turnCnt := int32 (turnCnt s3 - 1)\<rparr> else s3)"

text \<open>
  A solver task (\<^verbatim>\<open>go solve(x, y)\<close>): its copies of \<^verbatim>\<open>x\<close> and \<^verbatim>\<open>y\<close>, the locals
  \<^verbatim>\<open>length\<close> and \<^verbatim>\<open>directions\<close> of the function it is in, and the point it has
  reached: about to enter \<^verbatim>\<open>followPath\<close>, at the loop test of \<^verbatim>\<open>followPath\<close>, at
  the loop test of \<^verbatim>\<open>backTrackPath\<close>, at the loop body of \<^verbatim>\<open>backTrackPath\<close>, or
  done (\<^verbatim>\<open>finishChan <- struct{}{}\<close>).
\<close>

datatype phase = Start | Follow | BackTest | BackBody | Finished

record task =
  tx :: int
  ty :: int
  tlen :: int
  tdirs :: "dirTable list"
  tphase :: phase

text \<open>
  The branch of \<^verbatim>\<open>followPath\<close> for \<^verbatim>\<open>threads > 1\<close>: every other direction is
  counted, its first step marked, and a task started at the room it leads to.
\<close>

fun spawnBranches ::
    "state \<Rightarrow> int \<Rightarrow> int \<Rightarrow> dirTable list \<Rightarrow> int \<Rightarrow> task list \<times> state" where
  "spawnBranches s x y [] lastDir = ([], s)"
| "spawnBranches s x y (d # ds) lastDir =
     (case spawnBranches
             (followDir (s\<lparr>numThreads := int32 (numThreads s + 1)\<rparr>) x y d lastDir)
             x y ds lastDir of
        (ts, s') \<Rightarrow>
          (\<lparr>tx = x + dir_x d, ty = y + dir_y d, tlen = - 1, tdirs = newDirections,
            tphase = Start\<rparr> # ts, s'))"

text \<open>
  One round of the loop of \<^verbatim>\<open>followPath\<close>, from its test: whether the loop goes on,
  the new \<^verbatim>\<open>*x\<close>, \<^verbatim>\<open>*y\<close>, \<^verbatim>\<open>length\<close> and \<^verbatim>\<open>directions\<close>, the tasks started,
  and the state; \<^verbatim>\<open>lastDir\<close> is 0 throughout.
\<close>

definition followStep ::
    "state \<Rightarrow> int \<Rightarrow> int \<Rightarrow> int \<Rightarrow> dirTable list
      \<Rightarrow> bool \<times> int \<times> int \<times> int \<times> dirTable list \<times> task list \<times> state" where
  "followStep s x y len directions =
     (if begX s \<le> x \<and> x \<le> endX s then
        (case findDirections s x y len Path directions of
           (num, len', directions', s1) \<Rightarrow>
             if num = 0 then (False, x, y, len', directions', [], s1)
             else
               (let s2 = followDir s1 x y (directions' ! 0) 0 in
                case (if threads s2 > 1 \<and> num > 1 \<and> \<not> solvedFlag s2
                      then spawnBranches s2 x y (take (num - 1) (drop 1 directions')) 0
                      else ([], s2)) of
                  (ts, s3) \<Rightarrow>
                    (True, x + dir_x (directions' ! 0), y + dir_y (directions' ! 0),
                     len', directions', ts, s3)))
      else (False, x, y, len, directions, [], s))"

text \<open>
  The test of the loop of \<^verbatim>\<open>backTrackPath\<close>,
  \<^verbatim>\<open>(threads > 1 || findDirections(.., path, ..) == 0) && findDirections(.., solved, ..) == 1\<close>,
  evaluated left to right, both calls sharing \<^verbatim>\<open>length\<close> and \<^verbatim>\<open>directions\<close>.
\<close>

definition backTrackTest ::
    "state \<Rightarrow> int \<Rightarrow> int \<Rightarrow> int \<Rightarrow> dirTable list \<Rightarrow> bool \<times> int \<times> dirTable list \<times> state" where
  "backTrackTest s x y len directions =
     (case (if threads s > 1 then (True, len, directions, s)
            else (case findDirections s x y len Path directions of
                    (num, len', directions', s') \<Rightarrow> (num = 0, len', directions', s'))) of
        (False, len1, directions1, s1) \<Rightarrow> (False, len1, directions1, s1)
      | (True, len1, directions1, s1) \<Rightarrow>
          (case findDirections s1 x y len1 Solved directions1 of
             (num, len2, directions2, s2) \<Rightarrow> (num = 1, len2, directions2, s2)))"

subsection \<open>A single task\<close>

text \<open>The loop of \<^verbatim>\<open>followPath\<close>, on fuel. With \<^verbatim>\<open>threads <= 1\<close> no round starts a
  task.\<close>

fun followLoop ::
    "nat \<Rightarrow> int \<Rightarrow> int \<Rightarrow> int \<Rightarrow> dirTable list \<Rightarrow> state \<Rightarrow> (int \<times> int \<times> state) option" where
  "followLoop 0 x y len directions s = None"
| "followLoop (Suc n) x y len directions s =
     (case followStep s x y len directions of
        (True, x', y', len', directions', ts, s') \<Rightarrow> followLoop n x' y' len' directions' s'
      | (False, x', y', len', directions', ts, s') \<Rightarrow> Some (x', y', s'))"

definition followPath :: "nat \<Rightarrow> int \<Rightarrow> int \<Rightarrow> state \<Rightarrow> (bool \<times> int \<times> int \<times> state) option" where
  "followPath fuel x y s =
     (case followLoop fuel x y (- 1) newDirections (snd (setCell s x y Solved)) of
        None \<Rightarrow> None
      | Some (x', y', s') \<Rightarrow>
          if x' > endX s' then Some (True, x', y', s'\<lparr>solvedFlag := True\<rparr>)
          else Some (False, x', y', s'))"

text \<open>The loop of \<^verbatim>\<open>backTrackPath\<close>, on fuel.\<close>

fun backTrackLoop ::
    "nat \<Rightarrow> int \<Rightarrow> int \<Rightarrow> int \<Rightarrow> dirTable list \<Rightarrow> state \<Rightarrow> (int \<times> int \<times> state) option" where
  "backTrackLoop 0 x y len directions s = None"
| "backTrackLoop (Suc n) x y len directions s =
     (case backTrackTest s x y len directions of
        (False, len', directions', s') \<Rightarrow> Some (x, y, s')
      | (True, len', directions', s') \<Rightarrow>
          backTrackLoop n (x + dir_x (directions' ! 0)) (y + dir_y (directions' ! 0))
            len' directions' (unfollowDir s' x y (directions' ! 0) 0))"

definition backTrackPath :: "nat \<Rightarrow> int \<Rightarrow> int \<Rightarrow> state \<Rightarrow> (int \<times> int \<times> state) option" where
  "backTrackPath fuel x y s = backTrackLoop fuel x y (- 1) newDirections s"

text \<open>\<^verbatim>\<open>for !followPath(x, y) { backTrackPath(x, y) }\<close>, on fuel.\<close>

fun solveLoop :: "nat \<Rightarrow> int \<Rightarrow> int \<Rightarrow> state \<Rightarrow> (int \<times> int \<times> state) option" where
  "solveLoop 0 x y s = None"
| "solveLoop (Suc n) x y s =
     (case followPath n x y s of
        None \<Rightarrow> None
      | Some (True, x', y', s') \<Rightarrow> Some (x', y', s')
      | Some (False, x', y', s') \<Rightarrow>
          (case backTrackPath n x' y' s' of
             None \<Rightarrow> None
           | Some (x'', y'', s'') \<Rightarrow> solveLoop n x'' y'' s''))"

subsection \<open>Several tasks\<close>

text \<open>
  With \<^verbatim>\<open>threads > 1\<close> the tasks share the grid and the counters, and the Go scheduler
  decides which task runs. In the model a task runs from one of the points of \<open>phase\<close>
  to the next without interruption, and tasks are switched at these points only. Every
  run of the model is a run of the program (under a scheduler that switches tasks
  there), since every access to shared data in the source is an atomic operation; the
  program has further runs, which switch tasks inside such a part.

  \<open>taskStep\<close> is such a part for one task: it returns the task, the tasks it started,
  and the state.
\<close>

definition taskStep :: "state \<Rightarrow> task \<Rightarrow> task \<times> task list \<times> state" where
  "taskStep s t =
     (case tphase t of
        Start \<Rightarrow>
          (t\<lparr>tlen := - 1, tdirs := newDirections, tphase := Follow\<rparr>, [],
           snd (setCell s (tx t) (ty t) Solved))
      | Follow \<Rightarrow>
          (case followStep s (tx t) (ty t) (tlen t) (tdirs t) of
             (True, x', y', len', directions', ts, s') \<Rightarrow>
               (t\<lparr>tx := x', ty := y', tlen := len', tdirs := directions'\<rparr>, ts, s')
           | (False, x', y', len', directions', ts, s') \<Rightarrow>
               if x' > endX s'
               then (t\<lparr>tx := x', ty := y', tlen := len', tdirs := directions',
                       tphase := Finished\<rparr>, ts, s'\<lparr>solvedFlag := True\<rparr>)
               else (t\<lparr>tx := x', ty := y', tlen := - 1, tdirs := newDirections,
                       tphase := BackTest\<rparr>, ts, s'))
      | BackTest \<Rightarrow>
          (case backTrackTest s (tx t) (ty t) (tlen t) (tdirs t) of
             (True, len', directions', s') \<Rightarrow>
               (t\<lparr>tlen := len', tdirs := directions', tphase := BackBody\<rparr>, [], s')
           | (False, len', directions', s') \<Rightarrow>
               (t\<lparr>tlen := len', tdirs := directions', tphase := Finished\<rparr>, [], s'))
      | BackBody \<Rightarrow>
          (t\<lparr>tx := tx t + dir_x (tdirs t ! 0), ty := ty t + dir_y (tdirs t ! 0),
             tphase := BackTest\<rparr>, [],
           unfollowDir s (tx t) (ty t) (tdirs t ! 0) 0)
      | Finished \<Rightarrow> (t, [], s))"

text \<open>The scheduler's next choice; like the draws of \<open>rnd\<close> it is part of the input.\<close>

definition nextChoice :: "state \<Rightarrow> nat \<times> state" where
  "nextChoice s = (case sched s of [] \<Rightarrow> (0, s) | k # ks \<Rightarrow> (k, s\<lparr>sched := ks\<rparr>))"

text \<open>
  The tasks run until all are done (\<^verbatim>\<open>waitThreadsDone\<close> receives one signal per
  task counted in \<^verbatim>\<open>numThreads\<close>): each round the scheduler's choice \<open>k\<close> selects
  among the tasks that are not done. On fuel.
\<close>

definition live :: "task list \<Rightarrow> nat list" where
  "live ts = filter (\<lambda>i. tphase (ts ! i) \<noteq> Finished) [0 ..< length ts]"

fun runTasks :: "nat \<Rightarrow> task list \<Rightarrow> state \<Rightarrow> state option" where
  "runTasks 0 ts s = None"
| "runTasks (Suc n) ts s =
     (if live ts = [] then Some s
      else
        (case nextChoice s of
           (k, s1) \<Rightarrow>
             (let i = live ts ! (k mod length (live ts)) in
              case taskStep s1 (ts ! i) of
                (t', new, s2) \<Rightarrow> runTasks n (ts[i := t'] @ new) s2)))"

subsection \<open>The solver\<close>

text \<open>
  \<^verbatim>\<open>solveMaze\<close>. With \<^verbatim>\<open>threads > 1\<close> it starts the first task on copies of
  \<^verbatim>\<open>*x\<close> and \<^verbatim>\<open>*y\<close> and waits for all tasks.
\<close>

definition solveMaze :: "nat \<Rightarrow> int \<Rightarrow> int \<Rightarrow> state \<Rightarrow> (int \<times> int \<times> state) option" where
  "solveMaze fuel x y s =
     (let saveDepth = depth s;
          s1 = s\<lparr>depth := - 1, solvedFlag := False, pathLen := 0, turnCnt := 0\<rparr>;
          s2 = setMaze (setMaze s1 (begX s1 - 2) (begY s1) Solved) (begX s1 - 1) (begY s1) Solved;
          r = (if threads s2 > 1 then
                 (case runTasks fuel
                         [\<lparr>tx = x, ty = y, tlen = - 1, tdirs = newDirections, tphase = Start\<rparr>]
                         (s2\<lparr>numThreads := 1\<rparr>) of
                    None \<Rightarrow> None
                  | Some s' \<Rightarrow> Some (x, y, s'))
               else solveLoop fuel x y s2)
      in case r of
           None \<Rightarrow> None
         | Some (x', y', s3) \<Rightarrow>
             Some (x', y',
                   (setMaze (setMaze s3 (endX s3 + 1) (endY s3) Solved)
                      (endX s3 + 2) (endY s3) Solved)\<lparr>depth := saveDepth\<rparr>))"

section \<open>Opening optimizer\<close>

definition createOpenings :: "int \<Rightarrow> int \<Rightarrow> state \<Rightarrow> int \<times> int \<times> state" where
  "createOpenings x y s =
     (let s1 = s\<lparr>begY := x, endY := y\<rparr>;
          s2 = setMaze (setMaze s1 (begX s1 - 1) (begY s1) Path) (endX s1 + 1) (endY s1) Path
      in (begX s2, begY s2, s2))"

definition deleteOpenings :: "state \<Rightarrow> state" where
  "deleteOpenings s =
     setMaze (setMaze s (begX s - 1) (begY s) Wall) (endX s + 1) (endY s) Wall"

text \<open>
  The two guards of \<^verbatim>\<open>searchBestOpenings\<close> that skip a pair (\<^verbatim>\<open>continue\<close>), negated:
  the pair \<open>(start, finish)\<close> is tried.
\<close>

definition tried_pair :: "state \<Rightarrow> int \<Rightarrow> int \<Rightarrow> bool" where
  "tried_pair s start finish \<longleftrightarrow>
     \<not> (getMaze s (begX s) (start - 1) \<noteq> Wall \<and> getMaze s (begX s) (start + 1) \<noteq> Wall) \<and>
     \<not> (getMaze s (endX s) (finish - 1) \<noteq> Wall \<and> getMaze s (endX s) (finish + 1) \<noteq> Wall)"

text \<open>The locals \<^verbatim>\<open>bestPathLen, bestTurnCnt, bestStart, bestFinish\<close>.\<close>

record best =
  bestPathLen :: int
  bestTurnCnt :: int
  bestStart :: int
  bestFinish :: int

text \<open>The body of the inner loop for the pair \<open>(i, j)\<close>; \<open>None\<close> when the solver ran
  out of fuel.\<close>

definition trial :: "nat \<Rightarrow> int \<times> int \<Rightarrow> best \<times> state \<Rightarrow> (best \<times> state) option" where
  "trial fuel p acc =
     (case (p, acc) of
        ((i, j), (b, s)) \<Rightarrow>
          (let start = 2 * (i + 1); finish = 2 * (j + 1) in
           if \<not> tried_pair s start finish then Some (b, s)
           else
             (case createOpenings start finish s of
                (x, y, s1) \<Rightarrow>
                  (case solveMaze fuel x y s1 of
                     None \<Rightarrow> None
                   | Some (x', y', s2) \<Rightarrow>
                       (let better = (pathLen s2 > bestPathLen b \<or>
                                      (pathLen s2 = bestPathLen b \<and> turnCnt s2 > bestTurnCnt b));
                            b' = (if better
                                  then \<lparr>bestPathLen = pathLen s2, bestTurnCnt = turnCnt s2,
                                        bestStart = start, bestFinish = finish\<rparr>
                                  else b);
                            s3 = (if better then s2\<lparr>solveLength := pathLen s2\<rparr> else s2);
                            s4 = deleteOpenings (restoreMaze s3)
                        in Some (b', s4\<lparr>numSolves := int32 (numSolves s4 + 1)\<rparr>))))))"

fun trials :: "nat \<Rightarrow> (int \<times> int) list \<Rightarrow> best \<times> state \<Rightarrow> (best \<times> state) option" where
  "trials fuel [] acc = Some acc"
| "trials fuel (p # ps) acc =
     (case trial fuel p acc of None \<Rightarrow> None | Some acc' \<Rightarrow> trials fuel ps acc')"

definition pairOrder :: "state \<Rightarrow> (int \<times> int) list" where
  "pairOrder s = concat (map (\<lambda>i. map (\<lambda>j. (i, j)) [0 .. width s - 1]) [0 .. width s - 1])"

definition searchBestOpenings :: "nat \<Rightarrow> state \<Rightarrow> (int \<times> int \<times> state) option" where
  "searchBestOpenings fuel s =
     (case trials fuel (pairOrder s)
             (\<lparr>bestPathLen = 0, bestTurnCnt = 0, bestStart = 2, bestFinish = 2\<rparr>, s) of
        None \<Rightarrow> None
      | Some (b, s1) \<Rightarrow>
          Some (createOpenings (bestStart b) (bestFinish b)
                  (s1\<lparr>sumsolveLength := int32 (sumsolveLength s1 + solveLength s1)\<rparr>)))"

section \<open>The engine\<close>

text \<open>\<^verbatim>\<open>createMaze\<close>; \<^verbatim>\<open>waitThreadsDone\<close> has nothing to wait for with a single
  carving task.\<close>

definition createMaze :: "nat \<Rightarrow> state \<Rightarrow> (int \<times> int \<times> state) option" where
  "createMaze fuel s =
     (case initializeMaze s of
        (x, y, s1) \<Rightarrow>
          (case carvePaths fuel x y s1 of
             None \<Rightarrow> None
           | Some s2 \<Rightarrow>
               (case pushMidWallOpenings fuel s2 of
                  None \<Rightarrow> None
                | Some s3 \<Rightarrow> searchBestOpenings fuel s3)))"

text \<open>
  \<^verbatim>\<open>main\<close> clamps the options before its loop:
  \<^verbatim>\<open>if depthVal < 0 || depthVal > 100 { depthVal = 100 }\<close> and
  \<^verbatim>\<open>if minLen < 0 || minLen > height*width/3 { minLen = height*width/3 }\<close>.
\<close>

definition clampDepth :: "int \<Rightarrow> int" where
  "clampDepth d = (if d < 0 \<or> d > 100 then 100 else d)"

definition clampMinLen :: "int \<Rightarrow> int \<Rightarrow> int \<Rightarrow> int" where
  "clampMinLen h w p = (if p < 0 \<or> p > h * w sdiv 3 then h * w sdiv 3 else p)"

text \<open>
  The loop of \<^verbatim>\<open>main\<close>: each pass counts a maze, seeds the generator, creates the
  maze and solves it, and leaves the loop when \<^verbatim>\<open>solveLength >= minLen\<close>; the loop
  has no other exit. The seed of the first pass is the option \<^verbatim>\<open>-r\<close> or the clock,
  that of every later pass the clock: \<open>seeds k\<close> are the draws of pass \<open>k\<close>. The
  first argument bounds the passes looked at, \<open>fuel\<close> is the fuel of each pass; the
  result is \<^verbatim>\<open>numMazeCreated\<close> and the state when the loop is left, and \<open>None\<close>
  when it is not left within these bounds.
\<close>

fun mainLoop ::
    "nat \<Rightarrow> nat \<Rightarrow> (int \<Rightarrow> nat list) \<Rightarrow> int \<Rightarrow> int \<Rightarrow> state \<Rightarrow> (int \<times> state) option" where
  "mainLoop 0 fuel seeds minLen numMazeCreated s = None"
| "mainLoop (Suc n) fuel seeds minLen numMazeCreated s =
     (case createMaze fuel (s\<lparr>rnd := seeds (int32 (numMazeCreated + 1))\<rparr>) of
        None \<Rightarrow> None
      | Some (x, y, s1) \<Rightarrow>
          (case solveMaze fuel x y s1 of
             None \<Rightarrow> None
           | Some (x', y', s2) \<Rightarrow>
               if solveLength s2 \<ge> minLen then Some (int32 (numMazeCreated + 1), s2)
               else mainLoop n fuel seeds minLen (int32 (numMazeCreated + 1)) s2))"

text \<open>
  \<^verbatim>\<open>main\<close> for the options \<^verbatim>\<open>-h, -w, -t, -d, -p\<close> (height and width as clamped to
  the console, at least 1): the loop, then \<^verbatim>\<open>restoreMaze\<close>, after which the maze is
  written out.
\<close>

definition mazeMain ::
    "nat \<Rightarrow> nat \<Rightarrow> (int \<Rightarrow> nat list) \<Rightarrow> int \<Rightarrow> int \<Rightarrow> int \<Rightarrow> int \<Rightarrow> int
      \<Rightarrow> (int \<times> state) option" where
  "mazeMain n fuel seeds h w t d p =
     (case mainLoop n fuel seeds (clampMinLen h w p) 0 (startState h w t (clampDepth d) []) of
        None \<Rightarrow> None
      | Some (k, s) \<Rightarrow> Some (k, restoreMaze s))"
section \<open>Notions used in the proofs\<close>

text \<open>The end of \<^verbatim>\<open>findDirections\<close>: the origin cell is released and
  \<^verbatim>\<open>maxChecks\<close> updated.\<close>

definition fd_finish :: "state \<Rightarrow> int \<Rightarrow> int \<Rightarrow> int \<Rightarrow> state" where
  "fd_finish s2 x y nc =
     (let s3 = (if getMaze s2 x y = Check then setMaze s2 x y Path else s2)
      in if maxChecks s3 < nc then s3\<lparr>maxChecks := nc\<rparr> else s3)"

text \<open>The variables no probe writes.\<close>

definition probe_frame :: "state \<Rightarrow> state \<Rightarrow> bool" where
  "probe_frame s s' \<longleftrightarrow>
     height s' = height s \<and> width s' = width s \<and> threads s' = threads s \<and>
     depth s' = depth s \<and> maxX s' = maxX s \<and> maxY s' = maxY s \<and>
     begX s' = begX s \<and> endX s' = endX s \<and> begY s' = begY s \<and> endY s' = endY s \<and>
     solvedFlag s' = solvedFlag s \<and> mazeLen s' = mazeLen s \<and> pathLen s' = pathLen s \<and>
     turnCnt s' = turnCnt s \<and> numPaths s' = numPaths s \<and> numSolves s' = numSolves s \<and>
     numThreads s' = numThreads s \<and> numWallPush s' = numWallPush s \<and>
     solveLength s' = solveLength s \<and> sumsolveLength s' = sumsolveLength s \<and>
     sched s' = sched s"

text \<open>
  A grid as \<^verbatim>\<open>initializeMaze\<close> and carving leave it, given by the list of its open
  cells: every other cell inside the border ring is a wall. Used for concrete runs.
\<close>

definition gridState :: "int \<Rightarrow> int \<Rightarrow> (int \<times> int) list \<Rightarrow> state" where
  "gridState h w cells =
     (startState h w 0 0 [])
       \<lparr>maze := (\<lambda>c. if 1 \<le> fst c \<and> fst c \<le> 2 * h + 1 \<and> 1 \<le> snd c \<and> snd c \<le> 2 * w + 1 \<and>
                         c \<notin> set cells then Wall else Path),
        maxX := 2 * (h + 1) + 1, maxY := 2 * (w + 1) + 1, begX := 2, endX := 2 * h\<rparr>"

text \<open>Two rows of three rooms, each row a corridor, joined between the middle rooms.\<close>

definition ladder :: state where
  "ladder = gridState 2 3 [(2, 2), (2, 3), (2, 4), (2, 5), (2, 6), (3, 4),
                           (4, 2), (4, 3), (4, 4), (4, 5), (4, 6)]"

text \<open>A single room, as carving leaves the grid of height and width 1.\<close>

definition oneRoom :: state where
  "oneRoom = gridState 1 1 [(2, 2)]"

text \<open>
  Two rows of three rooms: the left rooms joined, the upper row a corridor, and each of
  the middle and right rooms of the lower row joined to the room above it. From the
  upper left room the corridor to the right leads to a junction with two dead ends.
\<close>

definition forkMaze :: state where
  "forkMaze = gridState 2 3 [(2, 2), (2, 3), (2, 4), (2, 5), (2, 6), (3, 2), (3, 4), (3, 6),
                             (4, 2), (4, 4), (4, 6)]"

text \<open>
  A schedule for three solver tasks on \<open>forkMaze\<close>: the first task takes its first
  step and starts the second, which starts the third; the second and the third run into
  their dead ends and retreat to the junction, where both pass the test of
  \<^verbatim>\<open>backTrackPath\<close> before either runs its body; the first task then walks to the
  exit.
\<close>

definition raceSched :: "nat list" where
  "raceSched = [0, 0, 1, 1, 1, 2, 2, 2, 1, 1, 2, 2, 2, 2, 1, 2, 1, 2, 1, 1, 0, 0]"

text \<open>A direction of the table along which the half step and the full step from
  \<open>(x, y)\<close> both hold \<open>v\<close>.\<close>

definition valid_dir :: "state \<Rightarrow> int \<Rightarrow> int \<Rightarrow> cell \<Rightarrow> dirTable \<Rightarrow> bool" where
  "valid_dir s x y v d \<longleftrightarrow>
     d \<in> set stdDirection \<and>
     getMaze s (x + dir_x d sdiv 2) (y + dir_y d sdiv 2) = v \<and>
     getMaze s (x + dir_x d) (y + dir_y d) = v"

text \<open>One step of \<^verbatim>\<open>carvePath\<close> when both claims succeed: the passage and the room
  ahead become \<^verbatim>\<open>path\<close> and \<^verbatim>\<open>mazeLen\<close> grows by one.\<close>

definition carveStep :: "state \<Rightarrow> int \<Rightarrow> int \<Rightarrow> dirTable \<Rightarrow> state" where
  "carveStep s x y d =
     (setMaze (setMaze s (x + dir_x d sdiv 2) (y + dir_y d sdiv 2) Path)
        (x + dir_x d) (y + dir_y d) Path)\<lparr>mazeLen := int32 (mazeLen s + 1)\<rparr>"

text \<open>States that differ at most in the generator and in the counters that carving and
  the probe change (\<^verbatim>\<open>numPaths, numThreads, maxChecks, numCheckExceeded\<close>, \<open>probes\<close>).\<close>

definition same_grid :: "state \<Rightarrow> state \<Rightarrow> bool" where
  "same_grid s s' \<longleftrightarrow>
     maze s' = maze s \<and> height s' = height s \<and> width s' = width s \<and> mazeLen s' = mazeLen s \<and>
     threads s' = threads s \<and> depth s' = depth s \<and> maxX s' = maxX s \<and> maxY s' = maxY s \<and>
     begX s' = begX s \<and> endX s' = endX s \<and> begY s' = begY s \<and> endY s' = endY s \<and>
     solvedFlag s' = solvedFlag s \<and> pathLen s' = pathLen s \<and> turnCnt s' = turnCnt s \<and>
     numSolves s' = numSolves s \<and> numWallPush s' = numWallPush s \<and>
     solveLength s' = solveLength s \<and> sumsolveLength s' = sumsolveLength s \<and>
     sched s' = sched s"

text \<open>The outermost ring of the grid.\<close>

definition onBorder :: "state \<Rightarrow> int \<times> int \<Rightarrow> bool" where
  "onBorder s c \<longleftrightarrow>
     ((fst c = 0 \<or> fst c = 2 * (height s + 1)) \<and> 0 \<le> snd c \<and> snd c \<le> 2 * (width s + 1)) \<or>
     ((snd c = 0 \<or> snd c = 2 * (width s + 1)) \<and> 0 \<le> fst c \<and> fst c \<le> 2 * (height s + 1))"

definition border_path :: "state \<Rightarrow> bool" where
  "border_path s \<longleftrightarrow> (\<forall>c. onBorder s c \<longrightarrow> maze s c = Path)"

definition no_check :: "state \<Rightarrow> bool" where
  "no_check s \<longleftrightarrow> (\<forall>c. maze s c \<noteq> Check)"

text \<open>A room from which \<^verbatim>\<open>findPathStart\<close> would start a new corridor.\<close>

definition can_start :: "state \<Rightarrow> int \<Rightarrow> int \<Rightarrow> bool" where
  "can_start s x y \<longleftrightarrow>
     getMaze s x y = Path \<and> \<not> straightThru s x y Path \<and>
     (\<exists>d\<in>set stdDirection. valid_dir s x y Wall d)"

text \<open>Carving is complete when no room can start a corridor.\<close>

definition carving_complete :: "state \<Rightarrow> bool" where
  "carving_complete s \<longleftrightarrow>
     (\<forall>i j. 0 \<le> i \<and> i < height s \<and> 0 \<le> j \<and> j < width s
        \<longrightarrow> \<not> can_start s (2 * (i + 1)) (2 * (j + 1)))"

section \<open>Basic facts\<close>

lemma sdiv2 [simp]: "(2::int) sdiv 2 = 1" "(- 2::int) sdiv 2 = - 1" "(0::int) sdiv 2 = 0"
  by (simp_all add: signed_divide_int_def)

lemma setCell_eq:
  "setCell s x y v =
     (if getMaze s x y = Check \<or> getMaze s x y = v then (False, s) else (True, setMaze s x y v))"
  by (auto simp: setCell_def setMaze_def getMaze_def fun_upd_idem)

lemma maze_setMaze [simp]: "maze (setMaze s x y v) = (maze s)((x, y) := v)"
  by (simp add: setMaze_def)

lemma getMaze_setMaze [simp]:
  "getMaze (setMaze s x y v) x' y' = (if x' = x \<and> y' = y then v else getMaze s x' y')"
  by (simp add: setMaze_def getMaze_def)

lemma maze_randIntn [simp]: "maze (snd (randIntn n s)) = maze s"
  by (simp add: randIntn_def split: list.splits)

section \<open>The probe leaves the grid as it found it\<close>

lemma checkOrphan_maze:
  assumes "(x + dx, y + dy) \<noteq> (x + dx sdiv 2, y + dy sdiv 2)"
  shows "maze (snd (checkOrphan s x y dx dy len)) = maze s"
  using assms
  by (auto simp: checkOrphan_def setCell_eq getMaze_def fun_eq_iff Let_def)

lemma cd_maze:
  "checkDirections s x y dx dy limit v len ml checks nc = (m, l', ml', c', nc', s') \<Longrightarrow>
     getMaze s (x + dx sdiv 2) (y + dy sdiv 2) = v \<Longrightarrow> maze s' = maze s"
  "checkLoop s x y limit v len ml checks nc ds = (m, l', ml', c', nc', s') \<Longrightarrow> maze s' = maze s"
proof (induction s x y dx dy limit v len ml checks nc and s x y limit v len ml checks nc ds
    arbitrary: m l' ml' c' nc' s' and m l' ml' c' nc' s' rule: checkDirections_checkLoop.induct)
  case (1 s x y dx dy limit v len minLength checks numChecks)
  note eq = "1.prems"(1) and pre = "1.prems"(2)
  show ?case
  proof (cases "len < 0 \<or> limit \<le> checks \<or> x + dx < 0 \<or> y + dy < 0 \<or> getMaze s (x + dx) (y + dy) \<noteq> v")
    case True
    with eq show ?thesis by (auto simp: checkDirections.simps[of s x y dx dy] split: if_splits)
  next
    case False
    note F = False
    note eq = eq[unfolded checkDirections.simps[of s x y dx dy]]
    show ?thesis
    proof (cases "v = Check")
      case True
      with eq F pre show ?thesis by (simp add: setCell_eq)
    next
      case vc: False
      define s1 where "s1 = setMaze s (x + dx sdiv 2) (y + dy sdiv 2) Check"
      have sc1: "setCell s (x + dx sdiv 2) (y + dy sdiv 2) Check = (True, s1)"
        using pre vc by (simp add: setCell_eq s1_def)
      show ?thesis
      proof (cases "(x + dx, y + dy) = (x + dx sdiv 2, y + dy sdiv 2)")
        case True
        then have "setCell s1 (x + dx) (y + dy) Check = (False, s1)"
          by (simp add: setCell_eq s1_def)
        with eq F sc1 have "s' = setMaze s1 (x + dx sdiv 2) (y + dy sdiv 2) v" by simp
        then show ?thesis using pre by (auto simp: s1_def getMaze_def fun_eq_iff)
      next
        case ne: False
        define s2 where "s2 = setMaze s1 (x + dx) (y + dy) Check"
        have sc2: "setCell s1 (x + dx) (y + dy) Check = (True, s2)"
          using F vc ne by (auto simp add: setCell_eq s1_def s2_def)
        obtain offset s3 where r: "randIntn 4 (s2\<lparr>probes := probes s2 + 1\<rparr>) = (offset, s3)"
          by (cases "randIntn 4 (s2\<lparr>probes := probes s2 + 1\<rparr>)")
        obtain m4 l4 ml4 c4 nc4 s4 where
          cl: "checkLoop s3 (x + dx) (y + dy) limit v (len - 1) minLength
                 (checks + 1) (numChecks + 1) (rotated offset) = (m4, l4, ml4, c4, nc4, s4)"
          by (metis prod_cases3)
        have "maze s4 = maze s3"
          using "1.IH"[OF _ _ _ sc1[symmetric] _ sc2[symmetric] _ r[symmetric] cl] F by auto
        moreover have "maze s3 = maze s2"
          using maze_randIntn[of 4 "s2\<lparr>probes := probes s2 + 1\<rparr>"] r by simp
        moreover have "s' = setMaze (setMaze s4 (x + dx) (y + dy) v) (x + dx sdiv 2) (y + dy sdiv 2) v"
          using eq F sc1 sc2 r cl by simp
        ultimately show ?thesis using pre F
          by (auto simp: s1_def s2_def getMaze_def fun_eq_iff)
      qed
    qed
  qed
next
  case (2 s x y limit v len minLength checks numChecks)
  then show ?case by simp
next
  case (3 s x y limit v len minLength checks numChecks d ds)
  let ?c = "getMaze s (x + dir_x d sdiv 2) (y + dir_y d sdiv 2) = v \<and>
            getMaze s (x + dir_x d) (y + dir_y d) = v"
  show ?case
  proof (cases ?c)
    case True
    obtain m1 l1 ml1 c1 nc1 s1 where
      cd: "checkDirections s x y (dir_x d) (dir_y d) limit v len minLength checks numChecks
             = (m1, l1, ml1, c1, nc1, s1)"
      by (metis prod_cases3)
    have a: "maze s1 = maze s" using "3.IH"(1)[OF True cd] True by simp
    show ?thesis
    proof (cases m1)
      case m1: True
      with cd True "3.prems" a show ?thesis by simp
    next
      case False
      with cd True "3.prems"
      have "checkLoop s1 x y limit v len ml1 c1 nc1 ds = (m, l', ml', c', nc', s')" by simp
      from "3.IH"(2)[OF True cd[symmetric] _ _ _ _ _ this] False a show ?thesis by simp
    qed
  next
    case False
    with "3.prems"
    have "checkLoop s x y limit v len minLength checks numChecks ds = (m, l', ml', c', nc', s')"
      by auto
    from "3.IH"(3)[OF False this] show ?thesis .
  qed
qed

lemma upto_unfold: "[i..j] = (if i \<le> j then i # [i + 1..j] else [])"
  by (simp add: upto.simps)

section \<open>The probe budget\<close>

lemma nce_setCell [simp]: "numCheckExceeded (snd (setCell s x y v)) = numCheckExceeded s"
  by (simp add: setCell_eq setMaze_def)

lemma nce_setMaze [simp]: "numCheckExceeded (setMaze s x y v) = numCheckExceeded s"
  by (simp add: setMaze_def)

lemma nce_randIntn [simp]: "numCheckExceeded (snd (randIntn n s)) = numCheckExceeded s"
  by (simp add: randIntn_def split: list.splits)

lemma probes_setCell [simp]: "probes (snd (setCell s x y v)) = probes s"
  by (simp add: setCell_eq setMaze_def)

lemma probes_setMaze [simp]: "probes (setMaze s x y v) = probes s"
  by (simp add: setMaze_def)

lemma probes_randIntn [simp]: "probes (snd (randIntn n s)) = probes s"
  by (simp add: randIntn_def split: list.splits)

lemma cd_budget:
  "checkDirections s x y dx dy limit v len ml checks nc = (m, l', ml', c', nc', s') \<Longrightarrow>
     checks \<le> c' \<and> (checks \<le> limit \<longrightarrow> c' \<le> limit) \<and> nc' - nc = c' - checks \<and>
     probes s' - probes s = c' - checks \<and>
     (numCheckExceeded s' \<noteq> numCheckExceeded s \<longrightarrow> 0 \<le> len) \<and>
     ((numCheckExceeded s' \<noteq> numCheckExceeded s \<or> limit \<le> checks) \<and> 0 \<le> len \<longrightarrow> \<not> m \<and> limit \<le> c')"
  "checkLoop s x y limit v len ml checks nc ds = (m, l', ml', c', nc', s') \<Longrightarrow>
     checks \<le> c' \<and> (checks \<le> limit \<longrightarrow> c' \<le> limit) \<and> nc' - nc = c' - checks \<and>
     probes s' - probes s = c' - checks \<and>
     (numCheckExceeded s' \<noteq> numCheckExceeded s \<longrightarrow> 0 \<le> len) \<and>
     ((numCheckExceeded s' \<noteq> numCheckExceeded s \<or> limit \<le> checks) \<and> 0 \<le> len \<longrightarrow> \<not> m \<and> limit \<le> c')"
proof (induction s x y dx dy limit v len ml checks nc and s x y limit v len ml checks nc ds
    arbitrary: m l' ml' c' nc' s' and m l' ml' c' nc' s' rule: checkDirections_checkLoop.induct)
  case (1 s x y dx dy limit v len minLength checks numChecks)
  note eq = "1.prems"(1)
  show ?case
  proof (cases "len < 0 \<or> limit \<le> checks \<or> x + dx < 0 \<or> y + dy < 0 \<or> getMaze s (x + dx) (y + dy) \<noteq> v")
    case True
    with eq show ?thesis by (auto simp: checkDirections.simps[of s x y dx dy] split: if_splits)
  next
    case False
    note eq = eq[unfolded checkDirections.simps[of s x y dx dy]]
    from False have F: "\<not> len < 0" "\<not> limit \<le> checks"
      "\<not> (x + dx < 0 \<or> y + dy < 0 \<or> getMaze s (x + dx) (y + dy) \<noteq> v)" by auto
    obtain b1 s1 where sc1: "setCell s (x + dx sdiv 2) (y + dy sdiv 2) Check = (b1, s1)"
      by (cases "setCell s (x + dx sdiv 2) (y + dy sdiv 2) Check")
    have n1: "numCheckExceeded s1 = numCheckExceeded s" "probes s1 = probes s"
      using nce_setCell[of s "x + dx sdiv 2" "y + dy sdiv 2" Check]
        probes_setCell[of s "x + dx sdiv 2" "y + dy sdiv 2" Check] sc1 by simp_all
    show ?thesis
    proof (cases b1)
      case False
      with eq F sc1 n1 show ?thesis by auto
    next
      case b1: True
      obtain b2 s2 where sc2: "setCell s1 (x + dx) (y + dy) Check = (b2, s2)"
        by (cases "setCell s1 (x + dx) (y + dy) Check")
      have n2: "numCheckExceeded s2 = numCheckExceeded s" "probes s2 = probes s"
        using nce_setCell[of s1 "x + dx" "y + dy" Check]
          probes_setCell[of s1 "x + dx" "y + dy" Check] sc2 n1 by simp_all
      show ?thesis
      proof (cases b2)
        case False
        with eq F sc1 b1 sc2 n2 show ?thesis by auto
      next
        case b2: True
        obtain offset s3 where r: "randIntn 4 (s2\<lparr>probes := probes s2 + 1\<rparr>) = (offset, s3)"
          by (cases "randIntn 4 (s2\<lparr>probes := probes s2 + 1\<rparr>)")
        have n3: "numCheckExceeded s3 = numCheckExceeded s" "probes s3 = probes s + 1"
          using nce_randIntn[of 4 "s2\<lparr>probes := probes s2 + 1\<rparr>", unfolded r]
            probes_randIntn[of 4 "s2\<lparr>probes := probes s2 + 1\<rparr>", unfolded r] n2 by simp_all
        obtain m4 l4 ml4 c4 nc4 s4 where
          cl: "checkLoop s3 (x + dx) (y + dy) limit v (len - 1) minLength
                 (checks + 1) (numChecks + 1) (rotated offset) = (m4, l4, ml4, c4, nc4, s4)"
          by (metis prod_cases3)
        have sc1': "(True, s1) = setCell s (x + dx sdiv 2) (y + dy sdiv 2) Check"
          using sc1 b1 by simp
        have sc2': "(True, s2) = setCell s1 (x + dx) (y + dy) Check"
          using sc2 b2 by simp
        note ih = "1.IH"[OF F sc1' refl sc2' refl r[symmetric] cl]
        have res: "m = m4" "c' = c4" "nc' = nc4" "numCheckExceeded s' = numCheckExceeded s4"
          "probes s' = probes s4"
          using eq F sc1 b1 sc2 b2 r cl by auto
        from ih res n3 F show ?thesis by auto
      qed
    qed
  qed
next
  case (2 s x y limit v len minLength checks numChecks)
  then show ?case by auto
next
  case (3 s x y limit v len minLength checks numChecks d ds)
  let ?c = "getMaze s (x + dir_x d sdiv 2) (y + dir_y d sdiv 2) = v \<and>
            getMaze s (x + dir_x d) (y + dir_y d) = v"
  show ?case
  proof (cases ?c)
    case True
    obtain m1 l1 ml1 c1 nc1 s1 where
      cd: "checkDirections s x y (dir_x d) (dir_y d) limit v len minLength checks numChecks
             = (m1, l1, ml1, c1, nc1, s1)"
      by (metis prod_cases3)
    note a = "3.IH"(1)[OF True cd]
    show ?thesis
    proof (cases m1)
      case m1: True
      with cd True "3.prems" have "(m, l', ml', c', nc', s') = (m1, l1, ml1, c1, nc1, s1)" by simp
      with a m1 show ?thesis by auto
    next
      case False
      then have mF: "m1 = False" by simp
      from False cd True "3.prems"
      have "checkLoop s1 x y limit v len ml1 c1 nc1 ds = (m, l', ml', c', nc', s')" by simp
      from "3.IH"(2)[OF True cd[symmetric] mF refl refl refl refl this] a show ?thesis by auto
    qed
  next
    case False
    with "3.prems"
    have "checkLoop s x y limit v len minLength checks numChecks ds = (m, l', ml', c', nc', s')"
      by auto
    from "3.IH"(3)[OF False this] show ?thesis .
  qed
qed

lemma std_dirs: "k < 4 \<Longrightarrow> stdDirection ! k \<in> set stdDirection"
proof -
  assume "k < 4"
  moreover have "length stdDirection = 4" by (simp add: stdDirection_def)
  ultimately show ?thesis by (simp add: nth_mem)
qed

lemma std_nonzero:
  "d \<in> set stdDirection \<Longrightarrow> (x + dir_x d, y + dir_y d) \<noteq> (x + dir_x d sdiv 2, y + dir_y d sdiv 2)"
  by (auto simp: stdDirection_def)

lemma look_maze:
  assumes "(x + dx, y + dy) \<noteq> (x + dx sdiv 2, y + dy sdiv 2)"
    and "look hdg x y dx dy num v directions len ml nc s = (r, directions', l', ml', nc', s')"
  shows "maze s' = maze s"
proof (cases "x > 1 \<and> y > 1 \<and> getMaze s (x + dx sdiv 2) (y + dy sdiv 2) = v \<and>
         getMaze s (x + dx) (y + dy) = v")
  case False
  with assms(2) show ?thesis by (auto simp: look_def)
next
  case True
  obtain o1 s1 where co: "checkOrphan s x y dx dy len = (o1, s1)"
    by (cases "checkOrphan s x y dx dy len")
  have m1: "maze s1 = maze s" using checkOrphan_maze[OF assms(1), of s len] co by simp
  show ?thesis
  proof (cases o1)
    case True
    with assms(2) \<open>x > 1 \<and> y > 1 \<and> getMaze s (x + dx sdiv 2) (y + dy sdiv 2) = v \<and>
         getMaze s (x + dx) (y + dy) = v\<close> co m1 show ?thesis by (simp add: look_def)
  next
    case False
    obtain m2 l2 ml2 c2 nc2 s2 where
      cd: "checkDirections s1 x y dx dy (10 * (depth s1 + 1)) v len ml 0 nc = (m2, l2, ml2, c2, nc2, s2)"
      by (metis prod_cases3)
    have "getMaze s1 (x + dx sdiv 2) (y + dy sdiv 2) = v" using True m1 by (simp add: getMaze_def)
    from cd_maze(1)[OF cd this] have "maze s2 = maze s" using m1 by simp
    moreover have "s' = s2" using assms(2) True co False cd by (cases m2) (simp_all add: look_def)
    ultimately show ?thesis by simp
  qed
qed

lemma lookLoop_maze:
  "lookLoop x y v cur offset is (num, directions, ml, nc, s) = (num', directions', ml', nc', s')
    \<Longrightarrow> maze s' = maze s"
proof (induction "is" arbitrary: num directions ml nc s)
  case Nil
  then show ?case by simp
next
  case (Cons i "is")
  let ?d = "stdDirection ! ((i + offset) mod 4)"
  obtain r d1 l1 m1 n1 s1 where
    lk: "look (dir_heading ?d) x y (dir_x ?d) (dir_y ?d) num v directions cur (ml ! i) nc s
           = (r, d1, l1, m1, n1, s1)"
    by (metis prod_cases3)
  have "?d \<in> set stdDirection" by (rule std_dirs) simp
  from look_maze[OF std_nonzero[OF this] lk] have a: "maze s1 = maze s" .
  from Cons.prems lk
  have "lookLoop x y v cur offset is (num + r, d1, ml[i := m1], n1, s1) = (num', directions', ml', nc', s')"
    by (simp add: Let_def)
  from Cons.IH[OF this] a show ?case by simp
qed

lemma findLoop_maze:
  "findLoop x y v cur acc = (cur', num', directions', ml', nc', s') \<Longrightarrow>
     maze s' = maze (snd (snd (snd (snd acc))))"
proof (induction x y v cur acc arbitrary: rule: findLoop.induct)
  case (1 x y v cur num directions minLength numChecks s)
  obtain offset s1 where r: "randIntn 4 s = (offset, s1)" by (cases "randIntn 4 s")
  obtain n2 d2 ml2 nc2 s2 where
    ll: "lookLoop x y v cur offset idx4 (num, directions, minLength, numChecks, s1)
          = (n2, d2, ml2, nc2, s2)"
    by (metis prod_cases3)
  have a: "maze s2 = maze s" using lookLoop_maze[OF ll] maze_randIntn[of 4 s] r by simp
  show ?case
  proof (cases "n2 > 0 \<or> cur < 0")
    case True
    with "1.prems" r ll have "s' = s2" by (simp add: findLoop.simps[of x y v cur])
    with a show ?thesis by simp
  next
    case False
    from "1.prems" r ll False
    have "findLoop x y v (cur - shortfall ml2) (n2, d2, ml2, nc2, s2) = (cur', num', directions', ml', nc', s')"
      by (simp add: findLoop.simps[of x y v cur])
    from "1.IH"[OF r[symmetric] ll[symmetric] refl refl refl False this] a
    show ?thesis by simp
  qed
qed

lemma findDirections_maze_eq:
  assumes nc: "getMaze s x y \<noteq> Check"
  shows "maze (snd (snd (snd (findDirections s x y len v directions)))) = maze s"
proof -
  obtain b s1 where e: "(if v \<noteq> Wall then (True, s)
            else if getMaze s x y = Path then setCell s x y Check
            else (False, s)) = (b, s1)" by (metis surj_pair)
  show ?thesis
  proof (cases b)
    case False
    with e have "s1 = s" by (auto simp: setCell_eq split: if_splits)
    with e False show ?thesis by (simp add: findDirections_def)
  next
    case True
    obtain cur num d2 ml nc s2 where
      fl: "findLoop x y v len (0, directions, [len, len, len, len], 0, s1) = (cur, num, d2, ml, nc, s2)"
      by (metis prod_cases3)
    have a: "maze s2 = maze s1" using findLoop_maze[OF fl] by simp
    have b: "s1 = s \<or> (maze s (x, y) = Path \<and> s1 = setMaze s x y Check)"
      using e by (auto simp: setCell_eq getMaze_def split: if_splits)
    have "maze (if getMaze s2 x y = Check then setMaze s2 x y Path else s2) = maze s"
      using a b nc by (auto simp: getMaze_def fun_eq_iff)
    then show ?thesis using e True fl
      by (simp add: findDirections_def Let_def)
  qed
qed

section \<open>What the probe may change\<close>

lemma setCell_cases:
  obtains "setCell s x y v = (False, s)" | "setCell s x y v = (True, setMaze s x y v)"
  by (cases "getMaze s x y = Check \<or> getMaze s x y = v") (simp_all add: setCell_eq)

lemma randIntn_cases:
  obtains k where "randIntn n s = (k, s)" | k r where "randIntn n s = (k, s\<lparr>rnd := r\<rparr>)"
  by (cases "rnd s") (simp_all add: randIntn_def)

lemma cd_rel:
  assumes rr: "\<And>s. R s s" and rt: "\<And>a b c. R a b \<Longrightarrow> R b c \<Longrightarrow> R a c"
    and sm: "\<And>s x y v. R s (setMaze s x y v)" and rn: "\<And>s r. R s (s\<lparr>rnd := r\<rparr>)"
    and ne: "\<And>s n. R s (s\<lparr>numCheckExceeded := n\<rparr>)"
    and pr: "\<And>s n. R s (s\<lparr>probes := n\<rparr>)"
  shows "checkDirections s x y dx dy limit v len ml checks nc = (m, l', ml', c', nc', s') \<Longrightarrow> R s s'"
    and "checkLoop s x y limit v len ml checks nc ds = (m, l', ml', c', nc', s') \<Longrightarrow> R s s'"
proof (induction s x y dx dy limit v len ml checks nc and s x y limit v len ml checks nc ds
    arbitrary: m l' ml' c' nc' s' and m l' ml' c' nc' s' rule: checkDirections_checkLoop.induct)
  case (1 s x y dx dy limit v len minLength checks numChecks)
  note eq = "1.prems"(1)
  show ?case
  proof (cases "len < 0 \<or> limit \<le> checks \<or> x + dx < 0 \<or> y + dy < 0 \<or> getMaze s (x + dx) (y + dy) \<noteq> v")
    case True
    with eq show ?thesis
      by (auto simp: checkDirections.simps[of s x y dx dy] rr ne split: if_splits)
  next
    case False
    note eq = eq[unfolded checkDirections.simps[of s x y dx dy]]
    from False have F: "\<not> len < 0" "\<not> limit \<le> checks"
      "\<not> (x + dx < 0 \<or> y + dy < 0 \<or> getMaze s (x + dx) (y + dy) \<noteq> v)" by auto
    obtain b1 s1 where sc1: "setCell s (x + dx sdiv 2) (y + dy sdiv 2) Check = (b1, s1)"
      by (cases "setCell s (x + dx sdiv 2) (y + dy sdiv 2) Check")
    have n1: "R s s1"
      by (rule setCell_cases[of s "x + dx sdiv 2" "y + dy sdiv 2" Check]) (use sc1 rr sm in auto)
    show ?thesis
    proof (cases b1)
      case False
      with eq F sc1 n1 show ?thesis by auto
    next
      case b1: True
      obtain b2 s2 where sc2: "setCell s1 (x + dx) (y + dy) Check = (b2, s2)"
        by (cases "setCell s1 (x + dx) (y + dy) Check")
      have n2: "R s1 s2"
        by (rule setCell_cases[of s1 "x + dx" "y + dy" Check]) (use sc2 rr sm in auto)
      show ?thesis
      proof (cases b2)
        case False
        with eq F sc1 b1 sc2 have "s' = setMaze s2 (x + dx sdiv 2) (y + dy sdiv 2) v" by auto
        with n1 n2 sm rt show ?thesis by blast
      next
        case b2: True
        obtain offset s3 where r: "randIntn 4 (s2\<lparr>probes := probes s2 + 1\<rparr>) = (offset, s3)"
          by (cases "randIntn 4 (s2\<lparr>probes := probes s2 + 1\<rparr>)")
        have "R (s2\<lparr>probes := probes s2 + 1\<rparr>) s3"
          by (rule randIntn_cases[of 4 "s2\<lparr>probes := probes s2 + 1\<rparr>"]) (use r rr rn in auto)
        then have n3: "R s2 s3" by (rule rt[OF pr])
        obtain m4 l4 ml4 c4 nc4 s4 where
          cl: "checkLoop s3 (x + dx) (y + dy) limit v (len - 1) minLength
                 (checks + 1) (numChecks + 1) (rotated offset) = (m4, l4, ml4, c4, nc4, s4)"
          by (metis prod_cases3)
        have sc1': "(True, s1) = setCell s (x + dx sdiv 2) (y + dy sdiv 2) Check"
          using sc1 b1 by simp
        have sc2': "(True, s2) = setCell s1 (x + dx) (y + dy) Check"
          using sc2 b2 by simp
        note ih = "1.IH"[OF F sc1' refl sc2' refl r[symmetric] cl]
        have res: "s' = setMaze (setMaze s4 (x + dx) (y + dy) v) (x + dx sdiv 2) (y + dy sdiv 2) v"
          using eq F sc1 b1 sc2 b2 r cl by auto
        have "R s s4" using n1 n2 n3 ih rt by blast
        with res sm rt show ?thesis by blast
      qed
    qed
  qed
next
  case (2 s x y limit v len minLength checks numChecks)
  then show ?case by (auto simp: rr)
next
  case (3 s x y limit v len minLength checks numChecks d ds)
  let ?c = "getMaze s (x + dir_x d sdiv 2) (y + dir_y d sdiv 2) = v \<and>
            getMaze s (x + dir_x d) (y + dir_y d) = v"
  show ?case
  proof (cases ?c)
    case True
    obtain m1 l1 ml1 c1 nc1 s1 where
      cd: "checkDirections s x y (dir_x d) (dir_y d) limit v len minLength checks numChecks
             = (m1, l1, ml1, c1, nc1, s1)"
      by (metis prod_cases3)
    note a = "3.IH"(1)[OF True cd]
    show ?thesis
    proof (cases m1)
      case m1: True
      with cd True "3.prems" have "(m, l', ml', c', nc', s') = (m1, l1, ml1, c1, nc1, s1)" by simp
      with a m1 show ?thesis by auto
    next
      case False
      then have mF: "m1 = False" by simp
      from False cd True "3.prems"
      have "checkLoop s1 x y limit v len ml1 c1 nc1 ds = (m, l', ml', c', nc', s')" by simp
      from "3.IH"(2)[OF True cd[symmetric] mF refl refl refl refl this] a rt show ?thesis by blast
    qed
  next
    case False
    with "3.prems"
    have "checkLoop s x y limit v len minLength checks numChecks ds = (m, l', ml', c', nc', s')"
      by auto
    from "3.IH"(3)[OF False this] show ?thesis .
  qed
qed

lemma checkOrphan_rel:
  assumes rr: "\<And>s. R s s" and rt: "\<And>a b c. R a b \<Longrightarrow> R b c \<Longrightarrow> R a c"
    and sm: "\<And>s x y v. R s (setMaze s x y v)"
  shows "R s (snd (checkOrphan s x y dx dy len))"
proof (cases "x > 1 \<and> y > 1 \<and> len > 0 \<and> len = depth s \<and>
         getMaze s (x + dx) (y + dy) = Wall \<and>
         getMaze s (x + dx sdiv 2) (y + dy sdiv 2) = Wall")
  case False
  show ?thesis by (subst checkOrphan_def, subst if_not_P[OF False]) (simp add: rr)
next
  case True
  define s1 where "s1 = setMaze s (x + dx) (y + dy) Path"
  have c1: "setCell s (x + dx) (y + dy) Path = (True, s1)"
    using True by (simp add: setCell_eq s1_def)
  have r1: "R s s1" by (simp add: s1_def sm)
  show ?thesis
  proof (cases "getMaze s1 (x + dx sdiv 2) (y + dy sdiv 2) = Check \<or>
                getMaze s1 (x + dx sdiv 2) (y + dy sdiv 2) = Path")
    case c: True
    then have "setCell s1 (x + dx sdiv 2) (y + dy sdiv 2) Path = (False, s1)"
      by (simp add: setCell_eq)
    with True c1 have "snd (checkOrphan s x y dx dy len) = s1" by (simp add: checkOrphan_def)
    with r1 show ?thesis by simp
  next
    case c: False
    define s2 where "s2 = setMaze s1 (x + dx sdiv 2) (y + dy sdiv 2) Path"
    from c have c2: "setCell s1 (x + dx sdiv 2) (y + dy sdiv 2) Path = (True, s2)"
      by (simp add: setCell_eq s2_def)
    have "snd (checkOrphan s x y dx dy len) =
        setMaze (setMaze s2 (x + dx) (y + dy) Wall) (x + dx sdiv 2) (y + dy sdiv 2) Wall"
      using True c1 c2 by (simp add: checkOrphan_def Let_def)
    moreover have "R s (setMaze (setMaze s2 (x + dx) (y + dy) Wall) (x + dx sdiv 2) (y + dy sdiv 2) Wall)"
    proof -
      have "R s1 s2" by (simp add: s2_def sm)
      then have "R s s2" by (rule rt[OF r1])
      then have "R s (setMaze s2 (x + dx) (y + dy) Wall)" by (rule rt) (rule sm)
      then show ?thesis by (rule rt) (rule sm)
    qed
    ultimately show ?thesis by simp
  qed
qed

lemma look_rel:
  assumes rr: "\<And>s. R s s" and rt: "\<And>a b c. R a b \<Longrightarrow> R b c \<Longrightarrow> R a c"
    and sm: "\<And>s x y v. R s (setMaze s x y v)" and rn: "\<And>s r. R s (s\<lparr>rnd := r\<rparr>)"
    and ne: "\<And>s n. R s (s\<lparr>numCheckExceeded := n\<rparr>)"
    and pr: "\<And>s n. R s (s\<lparr>probes := n\<rparr>)"
    and lk: "look hdg x y dx dy num v directions len ml nc s = (r, directions', l', ml', nc', s')"
  shows "R s s'"
proof (cases "x > 1 \<and> y > 1 \<and> getMaze s (x + dx sdiv 2) (y + dy sdiv 2) = v \<and>
         getMaze s (x + dx) (y + dy) = v")
  case False
  with lk show ?thesis by (auto simp: look_def rr)
next
  case True
  obtain o1 s1 where co: "checkOrphan s x y dx dy len = (o1, s1)"
    by (cases "checkOrphan s x y dx dy len")
  have m1: "R s s1" using checkOrphan_rel[of R s x y dx dy len, OF rr rt sm] co by simp
  show ?thesis
  proof (cases o1)
    case o1: True
    with lk True co m1 show ?thesis by (simp add: look_def)
  next
    case False
    obtain m2 l2 ml2 c2 nc2 s2 where
      cd: "checkDirections s1 x y dx dy (10 * (depth s1 + 1)) v len ml 0 nc = (m2, l2, ml2, c2, nc2, s2)"
      by (metis prod_cases3)
    from cd_rel(1)[of R, OF rr rt sm rn ne pr cd] have "R s1 s2" .
    moreover have "s' = s2" using lk True co False cd by (cases m2) (simp_all add: look_def)
    ultimately show ?thesis using rt[OF m1] by simp
  qed
qed

lemma lookLoop_rel:
  assumes rr: "\<And>s. R s s" and rt: "\<And>a b c. R a b \<Longrightarrow> R b c \<Longrightarrow> R a c"
    and sm: "\<And>s x y v. R s (setMaze s x y v)" and rn: "\<And>s r. R s (s\<lparr>rnd := r\<rparr>)"
    and ne: "\<And>s n. R s (s\<lparr>numCheckExceeded := n\<rparr>)"
    and pr: "\<And>s n. R s (s\<lparr>probes := n\<rparr>)"
  shows "lookLoop x y v cur offset is (num, directions, ml, nc, s) = (num', directions', ml', nc', s')
    \<Longrightarrow> R s s'"
proof (induction "is" arbitrary: num directions ml nc s)
  case Nil
  then show ?case by (simp add: rr)
next
  case (Cons i "is")
  let ?d = "stdDirection ! ((i + offset) mod 4)"
  obtain r d1 l1 m1 n1 s1 where
    lk: "look (dir_heading ?d) x y (dir_x ?d) (dir_y ?d) num v directions cur (ml ! i) nc s
           = (r, d1, l1, m1, n1, s1)"
    by (metis prod_cases3)
  from look_rel[of R, OF rr rt sm rn ne pr lk] have a: "R s s1" .
  from Cons.prems lk
  have "lookLoop x y v cur offset is (num + r, d1, ml[i := m1], n1, s1) = (num', directions', ml', nc', s')"
    by (simp add: Let_def)
  from rt[OF a Cons.IH[OF this]] show ?case .
qed

lemma findLoop_rel:
  assumes rr: "\<And>s. R s s" and rt: "\<And>a b c. R a b \<Longrightarrow> R b c \<Longrightarrow> R a c"
    and sm: "\<And>s x y v. R s (setMaze s x y v)" and rn: "\<And>s r. R s (s\<lparr>rnd := r\<rparr>)"
    and ne: "\<And>s n. R s (s\<lparr>numCheckExceeded := n\<rparr>)"
    and pr: "\<And>s n. R s (s\<lparr>probes := n\<rparr>)"
  shows "findLoop x y v cur acc = (cur', num', directions', ml', nc', s') \<Longrightarrow>
     R (snd (snd (snd (snd acc)))) s'"
proof (induction x y v cur acc arbitrary: rule: findLoop.induct)
  case (1 x y v cur num directions minLength numChecks s)
  obtain offset s1 where r: "randIntn 4 s = (offset, s1)" by (cases "randIntn 4 s")
  have r1: "R s s1"
    by (rule randIntn_cases[of 4 s]) (use r rr rn in auto)
  obtain n2 d2 ml2 nc2 s2 where
    ll: "lookLoop x y v cur offset idx4 (num, directions, minLength, numChecks, s1)
          = (n2, d2, ml2, nc2, s2)"
    by (metis prod_cases3)
  have a: "R s s2" by (rule rt[OF r1 lookLoop_rel[of R, OF rr rt sm rn ne pr ll]])
  show ?case
  proof (cases "n2 > 0 \<or> cur < 0")
    case True
    with "1.prems" r ll have "s' = s2" by (simp add: findLoop.simps[of x y v cur])
    with a show ?thesis by simp
  next
    case False
    from "1.prems" r ll False
    have "findLoop x y v (cur - shortfall ml2) (n2, d2, ml2, nc2, s2) = (cur', num', directions', ml', nc', s')"
      by (simp add: findLoop.simps[of x y v cur])
    from rt[OF a "1.IH"[OF r[symmetric] ll[symmetric] refl refl refl False this, simplified]]
    show ?thesis by simp
  qed
qed



lemma findDirections_cases:
  assumes "findDirections s x y len v directions = (num, len', directions', s')"
  obtains (skip) "v = Wall" "getMaze s x y \<noteq> Path" "num = 0" "len' = len"
      "directions' = directions" "s' = (if maxChecks s < 0 then s\<lparr>maxChecks := 0\<rparr> else s)"
  | (run) cur ml nc s2 where "v = Wall \<longrightarrow> getMaze s x y = Path"
      "findLoop x y v len (0, directions, [len, len, len, len], 0,
         (if v = Wall then setMaze s x y Check else s)) = (cur, num, directions', ml, nc, s2)"
      "len' = (if cur = len \<and> cur < depth s2 then cur + 1 else cur)"
      "s' = fd_finish s2 x y nc"
proof (cases "v = Wall \<and> getMaze s x y \<noteq> Path")
  case True
  with assms have "num = 0" "len' = len" "directions' = directions"
    "s' = (if maxChecks s < 0 then s\<lparr>maxChecks := 0\<rparr> else s)"
    by (simp_all add: findDirections_def)
  with True show ?thesis using skip by blast
next
  case False
  define s1 where "s1 = (if v = Wall then setMaze s x y Check else s)"
  have e: "(if v \<noteq> Wall then (True, s)
            else if getMaze s x y = Path then setCell s x y Check
            else (False, s)) = (True, s1)"
    using False by (auto simp: setCell_eq s1_def)
  obtain cur num2 d2 ml nc s2 where
    fl: "findLoop x y v len (0, directions, [len, len, len, len], 0, s1) = (cur, num2, d2, ml, nc, s2)"
    by (metis prod_cases3)
  have "findDirections s x y len v directions =
      (num2, (if cur = len \<and> cur < depth s2 then cur + 1 else cur), d2, fd_finish s2 x y nc)"
    unfolding findDirections_def e by (simp add: fl Let_def fd_finish_def)
  with assms have "num = num2" "directions' = d2" "len' = (if cur = len \<and> cur < depth s2 then cur + 1 else cur)"
    "s' = fd_finish s2 x y nc" by simp_all
  with False fl show ?thesis using run[of cur ml nc s2] by (simp add: s1_def)
qed

lemma findDirections_rel:
  assumes rr: "\<And>s. R s s" and rt: "\<And>a b c. R a b \<Longrightarrow> R b c \<Longrightarrow> R a c"
    and sm: "\<And>s x y v. R s (setMaze s x y v)" and rn: "\<And>s r. R s (s\<lparr>rnd := r\<rparr>)"
    and ne: "\<And>s n. R s (s\<lparr>numCheckExceeded := n\<rparr>)"
    and pr: "\<And>s n. R s (s\<lparr>probes := n\<rparr>)"
    and mc: "\<And>s n. R s (s\<lparr>maxChecks := n\<rparr>)"
    and fd: "findDirections s x y len v directions = (num, len', directions', s')"
  shows "R s s'"
  using fd
proof (cases rule: findDirections_cases)
  case skip
  then show ?thesis by (simp add: rr mc)
next
  case (run cur ml nc s2)
  define s1 where "s1 = (if v = Wall then setMaze s x y Check else s)"
  have 1: "R s s1" by (simp add: s1_def rr sm)
  have 2: "R s1 s2" using findLoop_rel[of R, OF rr rt sm rn ne pr run(2)] by (simp add: s1_def)
  define s3 where "s3 = (if getMaze s2 x y = Check then setMaze s2 x y Path else s2)"
  have 3: "R s2 s3" by (simp add: s3_def rr sm)
  have 4: "R s3 s'" using run(4) by (simp add: fd_finish_def Let_def s3_def[symmetric] rr mc)
  show ?thesis by (rule rt[OF rt[OF rt[OF 1 2] 3] 4])
qed

lemma probe_frame_refl: "probe_frame s s"
  by (simp add: probe_frame_def)

lemma probe_frame_trans: "probe_frame a b \<Longrightarrow> probe_frame b c \<Longrightarrow> probe_frame a c"
  by (simp add: probe_frame_def)

lemma findDirections_frame:
  assumes "findDirections s x y len v directions = (num, len', directions', s')"
  shows "probe_frame s s'"
proof (rule findDirections_rel[of probe_frame, OF _ _ _ _ _ _ _ assms])
  show "\<And>a b c. probe_frame a b \<Longrightarrow> probe_frame b c \<Longrightarrow> probe_frame a c"
    by (rule probe_frame_trans)
qed (simp_all add: probe_frame_def setMaze_def)

section \<open>The normalizer at its fixed point\<close>

lemma hw_setCell [simp]:
  "height (snd (setCell s x y v)) = height s" "width (snd (setCell s x y v)) = width s"
  by (simp_all add: setCell_eq setMaze_def)

lemma pushStep_hw:
  "height (snd (pushStep c acc)) = height (snd acc) \<and> width (snd (pushStep c acc)) = width (snd acc)"
  by (cases c; cases acc) (simp add: pushStep_def Let_def)

lemma pushStep_moves:
  assumes "pushStep c (m, s) = (m', s')"
  shows "m \<le> m' \<and> (m' = m \<longrightarrow> s' = s \<and> \<not> midWallOpening s (fst c) (snd c))"
  using assms by (cases c) (auto simp: pushStep_def Let_def split: if_splits)

lemma fold_pushStep_moves:
  "fold pushStep cs (m, s) = (m', s') \<Longrightarrow>
     m \<le> m' \<and> (m' = m \<longrightarrow> s' = s \<and> (\<forall>c\<in>set cs. \<not> midWallOpening s (fst c) (snd c)))"
proof (induction cs arbitrary: m s)
  case Nil
  then show ?case by simp
next
  case (Cons c cs)
  obtain m1 s1 where st: "pushStep c (m, s) = (m1, s1)" by (cases "pushStep c (m, s)")
  with Cons.prems have f: "fold pushStep cs (m1, s1) = (m', s')" by simp
  from pushStep_moves[OF st] Cons.IH[OF f] show ?case by auto
qed

lemma fold_pushStep_hw:
  "height (snd (fold pushStep cs acc)) = height (snd acc) \<and>
   width (snd (fold pushStep cs acc)) = width (snd acc)"
proof (induction cs arbitrary: acc)
  case Nil
  then show ?case by simp
next
  case (Cons c cs)
  show ?case using Cons.IH[of "pushStep c acc"] pushStep_hw[of c acc] by simp
qed

lemma pushSweep_zero:
  assumes "pushSweep s = (0, s')"
  shows "s' = s \<and> (\<forall>c\<in>set (sweepCells s). \<not> midWallOpening s (fst c) (snd c))"
  using fold_pushStep_moves[of "sweepCells s" 0 s 0 s'] assms by (simp add: pushSweep_def)

lemma pushMidWallOpenings_fixed:
  "pushMidWallOpenings n s = Some s' \<Longrightarrow> pushSweep s' = (0, s')"
proof (induction n arbitrary: s)
  case 0
  then show ?case by simp
next
  case (Suc n)
  obtain m s1 where sw: "pushSweep s = (m, s1)" by (cases "pushSweep s")
  show ?case
  proof (cases "m = 0")
    case True
    with Suc.prems sw have "s1 = s'" by simp
    moreover from pushSweep_zero[of s s1] sw True have "s1 = s" by simp
    ultimately show ?thesis using sw True by simp
  next
    case False
    with Suc.prems sw have "pushMidWallOpenings n s1 = Some s'" by simp
    from Suc.IH[OF this] show ?thesis .
  qed
qed

lemma sweepRow_mem:
  "(a, j) \<in> set (sweepRow s i) \<longleftrightarrow>
     a = i \<and> i mod 2 + 1 \<le> j \<and> j \<le> 2 * (width s + 1) - 1 \<and> (j - (i mod 2 + 1)) mod 2 = 0"
  by (auto simp: sweepRow_def)

lemma sweepCells_mem:
  "(i, j) \<in> set (sweepCells s) \<longleftrightarrow>
     1 \<le> i \<and> i \<le> 2 * height s + 1 \<and> 1 \<le> j \<and> j \<le> 2 * width s + 1 \<and> odd (i + j)"
proof -
  have "(i, j) \<in> set (sweepCells s) \<longleftrightarrow>
      (\<exists>a. 1 \<le> a \<and> a \<le> 2 * (height s + 1) - 1 \<and> (i, j) \<in> set (sweepRow s a))"
    by (auto simp: sweepCells_def)
  also have "\<dots> \<longleftrightarrow>
      1 \<le> i \<and> i \<le> 2 * (height s + 1) - 1 \<and> i mod 2 + 1 \<le> j \<and> j \<le> 2 * (width s + 1) - 1 \<and>
      (j - (i mod 2 + 1)) mod 2 = 0"
    by (simp add: sweepRow_mem)
  also have "\<dots> \<longleftrightarrow> 1 \<le> i \<and> i \<le> 2 * height s + 1 \<and> 1 \<le> j \<and> j \<le> 2 * width s + 1 \<and> odd (i + j)"
    by presburger
  finally show ?thesis .
qed

section \<open>The directions a search returns\<close>

lemma valid_dir_maze: "maze s' = maze s \<Longrightarrow> valid_dir s' x y v d = valid_dir s x y v d"
  by (simp add: valid_dir_def getMaze_def)

lemma checkOrphan_neg: "len \<le> 0 \<Longrightarrow> checkOrphan s x y dx dy len = (False, s)"
  by (simp add: checkOrphan_def)

lemma look_neg:
  "len < 0 \<Longrightarrow> look hdg x y dx dy num v directions len ml nc s =
     (if x > 1 \<and> y > 1 \<and> getMaze s (x + dx sdiv 2) (y + dy sdiv 2) = v \<and>
         getMaze s (x + dx) (y + dy) = v
      then (1, directions[num := \<lparr>dir_x = dx, dir_y = dy, dir_heading = hdg\<rparr>], len, ml, nc, s)
      else (0, directions, len, ml, nc, s))"
  by (simp add: look_def checkOrphan_neg checkDirections.simps[of _ x y dx dy])

lemma look_cases:
  assumes "look hdg x y dx dy num v directions len ml nc s = (r, directions', l', ml', nc', s')"
  obtains (no) "r = 0" "directions' = directions"
  | (yes) "r = 1" "directions' = directions[num := \<lparr>dir_x = dx, dir_y = dy, dir_heading = hdg\<rparr>]"
      "x > 1" "y > 1" "getMaze s (x + dx sdiv 2) (y + dy sdiv 2) = v"
      "getMaze s (x + dx) (y + dy) = v"
proof (cases "x > 1 \<and> y > 1 \<and> getMaze s (x + dx sdiv 2) (y + dy sdiv 2) = v \<and>
         getMaze s (x + dx) (y + dy) = v")
  case False
  with assms have "r = 0" "directions' = directions" by (auto simp: look_def)
  then show ?thesis by (rule no)
next
  case True
  obtain o1 s1 where co: "checkOrphan s x y dx dy len = (o1, s1)"
    by (cases "checkOrphan s x y dx dy len")
  show ?thesis
  proof (cases o1)
    case o1: True
    with assms True co have "r = 0" "directions' = directions" by (simp_all add: look_def)
    then show ?thesis by (rule no)
  next
    case False
    obtain m2 l2 ml2 c2 nc2 s2 where
      cd: "checkDirections s1 x y dx dy (10 * (depth s1 + 1)) v len ml 0 nc = (m2, l2, ml2, c2, nc2, s2)"
      by (metis prod_cases3)
    show ?thesis
    proof (cases m2)
      case m2: True
      with assms True co False cd
      have "r = 1" "directions' = directions[num := \<lparr>dir_x = dx, dir_y = dy, dir_heading = hdg\<rparr>]"
        by (simp_all add: look_def)
      with True show ?thesis using yes by blast
    next
      case m2: False
      with assms True co False cd have "r = 0" "directions' = directions"
        by (simp_all add: look_def)
      then show ?thesis by (rule no)
    qed
  qed
qed

lemma lookLoop_valid:
  assumes "lookLoop x y v cur offset is (num, directions, ml, nc, s) = (num', directions', ml', nc', s')"
    and "num + length is \<le> length directions"
    and "\<forall>k<num. valid_dir s x y v (directions ! k)"
  shows "num \<le> num' \<and> num' \<le> num + length is \<and> length directions' = length directions \<and>
         (\<forall>k<num'. valid_dir s x y v (directions' ! k)) \<and> (num < num' \<longrightarrow> x > 1 \<and> y > 1)"
  using assms
proof (induction "is" arbitrary: num directions ml nc s)
  case Nil
  then show ?case by simp
next
  case (Cons i "is")
  let ?d = "stdDirection ! ((i + offset) mod 4)"
  obtain r d1 l1 m1 n1 s1 where
    lk: "look (dir_heading ?d) x y (dir_x ?d) (dir_y ?d) num v directions cur (ml ! i) nc s
           = (r, d1, l1, m1, n1, s1)"
    by (metis prod_cases3)
  have mem: "?d \<in> set stdDirection" by (rule std_dirs) simp
  from look_maze[OF std_nonzero[OF mem] lk] have ms: "maze s1 = maze s" .
  from Cons.prems(1) lk
  have ll: "lookLoop x y v cur offset is (num + r, d1, ml[i := m1], n1, s1) = (num', directions', ml', nc', s')"
    by (simp add: Let_def)
  have "r \<le> 1 \<and> length d1 = length directions \<and> (\<forall>k<num + r. valid_dir s x y v (d1 ! k)) \<and>
        (r = 1 \<longrightarrow> x > 1 \<and> y > 1)"
  proof (cases rule: look_cases[OF lk])
    case 1
    with Cons.prems(3) show ?thesis by simp
  next
    case 2
    have "\<lparr>dir_x = dir_x ?d, dir_y = dir_y ?d, dir_heading = dir_heading ?d\<rparr> = ?d" by simp
    with 2 have d1: "d1 = directions[num := ?d]" by simp
    have "valid_dir s x y v ?d" using 2 mem by (simp add: valid_dir_def)
    moreover have "num < length directions" using Cons.prems(2) by simp
    ultimately have "\<forall>k<num + 1. valid_dir s x y v (d1 ! k)"
      using Cons.prems(3) d1 by (auto simp: nth_list_update less_Suc_eq)
    with 2 d1 show ?thesis by simp
  qed
  then have a: "r \<le> 1" "length d1 = length directions" "\<forall>k<num + r. valid_dir s1 x y v (d1 ! k)"
      "r = 1 \<longrightarrow> x > 1 \<and> y > 1"
    using valid_dir_maze[OF ms] by auto
  have "num + r + length is \<le> length d1" using a Cons.prems(2) by simp
  from Cons.IH[OF ll this a(3)] a valid_dir_maze[OF ms]
  show ?case by auto
qed

lemma lookLoop_neg_zero:
  assumes "lookLoop x y v cur offset is (num, directions, ml, nc, s) = (num', directions', ml', nc', s')"
    and "cur < 0" and "num' = num" and "x > 1" and "y > 1"
  shows "\<forall>i\<in>set is. \<not> valid_dir s x y v (stdDirection ! ((i + offset) mod 4))"
  using assms(1,3)
proof (induction "is" arbitrary: num directions ml nc s)
  case Nil
  then show ?case by simp
next
  case (Cons i "is")
  let ?d = "stdDirection ! ((i + offset) mod 4)"
  let ?c = "getMaze s (x + dir_x ?d sdiv 2) (y + dir_y ?d sdiv 2) = v \<and>
            getMaze s (x + dir_x ?d) (y + dir_y ?d) = v"
  have mem: "?d \<in> set stdDirection" by (rule std_dirs) simp
  show ?case
  proof (cases ?c)
    case True
    with Cons.prems(1) assms(2,4,5)
    have ll: "lookLoop x y v cur offset is (num + 1,
          directions[num := \<lparr>dir_x = dir_x ?d, dir_y = dir_y ?d, dir_heading = dir_heading ?d\<rparr>],
          ml, nc, s)
        = (num', directions', ml', nc', s')"
      by (simp add: Let_def look_neg)
    have "num + 1 \<le> num'"
    proof -
      have "\<And>n d m c t. lookLoop x y v cur offset is (n, d, m, c, t) = (num', directions', ml', nc', s')
          \<Longrightarrow> n \<le> num'"
      proof (induction "is")
        case Nil
        then show ?case by simp
      next
        case (Cons j js)
        obtain r d1 l1 m1 n1 s1 where
          lk: "look (dir_heading (stdDirection ! ((j + offset) mod 4))) x y
                 (dir_x (stdDirection ! ((j + offset) mod 4)))
                 (dir_y (stdDirection ! ((j + offset) mod 4))) n v d cur (m ! j) c t
                = (r, d1, l1, m1, n1, s1)"
          by (metis prod_cases3)
        with Cons.prems
        have "lookLoop x y v cur offset js (n + r, d1, m[j := m1], n1, s1) = (num', directions', ml', nc', s')"
          by (simp add: Let_def)
        from Cons.IH[OF this] show ?case by simp
      qed
      from this[OF ll] show ?thesis .
    qed
    with Cons.prems(2) show ?thesis by simp
  next
    case False
    with Cons.prems(1) assms(2)
    have ll: "lookLoop x y v cur offset is (num, directions, ml, nc, s)
        = (num', directions', ml', nc', s')"
      by (simp add: Let_def look_neg)
    from Cons.IH[OF ll Cons.prems(2)] False show ?thesis by (simp add: valid_dir_def)
  qed
qed

lemma rotation_covers:
  assumes "d \<in> set stdDirection"
  shows "\<exists>i\<in>set idx4. d = stdDirection ! ((i + offset) mod 4)"
proof -
  have len: "length stdDirection = 4" by (simp add: stdDirection_def)
  from assms obtain k where "k < length stdDirection" "stdDirection ! k = d"
    by (auto simp: in_set_conv_nth)
  with len have k: "k < 4" "d = stdDirection ! k" by simp_all
  define r where "r = offset mod 4"
  have r4: "r < 4" by (simp add: r_def)
  define i where "i = (k + (4 - r)) mod 4"
  have "i < 4" by (simp add: i_def)
  then have "i = 0 \<or> i = 1 \<or> i = 2 \<or> i = 3" by linarith
  then have mem: "i \<in> set idx4" by (auto simp: idx4_def)
  have "(i + offset) mod 4 = (i + r) mod 4" by (simp add: r_def mod_add_right_eq)
  also have "\<dots> = (k + (4 - r) + r) mod 4" by (simp add: i_def mod_add_left_eq)
  also have "k + (4 - r) + r = k + 4" using r4 by simp
  also have "(k + 4) mod 4 = k" using k(1) by simp
  finally have "(i + offset) mod 4 = k" .
  with mem k(2) show ?thesis by blast
qed

lemma findLoop_valid:
  assumes "findLoop x y v cur acc = (cur', num', directions', ml', nc', s')"
    and "acc = (0, directions, ml, nc, s)" and "length directions = 4"
  shows "length directions' = 4 \<and> num' \<le> 4 \<and> (\<forall>k<num'. valid_dir s x y v (directions' ! k)) \<and>
         (0 < num' \<longrightarrow> x > 1 \<and> y > 1) \<and>
         (num' = 0 \<and> x > 1 \<and> y > 1 \<longrightarrow> (\<forall>d\<in>set stdDirection. \<not> valid_dir s x y v d))"
  using assms
proof (induction x y v cur acc arbitrary: directions ml nc s rule: findLoop.induct)
  case (1 x y v cur num0 dirs0 ml0 nc0 s0)
  from "1.prems"(2) have eqs: "num0 = 0" "dirs0 = directions" "ml0 = ml" "nc0 = nc" "s0 = s"
    by simp_all
  obtain offset s1 where r: "randIntn 4 s = (offset, s1)" by (cases "randIntn 4 s")
  have ms1: "maze s1 = maze s" using maze_randIntn[of 4 s] r by simp
  obtain n2 d2 ml2 nc2 s2 where
    ll: "lookLoop x y v cur offset idx4 (0, directions, ml, nc, s1) = (n2, d2, ml2, nc2, s2)"
    by (metis prod_cases3)
  have ms2: "maze s2 = maze s" using lookLoop_maze[OF ll] ms1 by simp
  have "0 + length idx4 \<le> length directions" using "1.prems"(3) by (simp add: idx4_def)
  from lookLoop_valid[OF ll this]
  have v2: "n2 \<le> 4" "length d2 = 4" "\<forall>k<n2. valid_dir s x y v (d2 ! k)" "0 < n2 \<longrightarrow> x > 1 \<and> y > 1"
    using "1.prems"(3) valid_dir_maze[OF ms1] by (simp_all add: idx4_def)
  show ?case
  proof (cases "n2 > 0 \<or> cur < 0")
    case True
    with "1.prems"(1) r ll eqs
    have res: "cur' = cur" "num' = n2" "directions' = d2"
      by (simp_all add: findLoop.simps[of x y v cur])
    have "\<forall>d\<in>set stdDirection. \<not> valid_dir s x y v d" if z: "n2 = 0" "x > 1" "y > 1"
    proof
      fix d assume d: "d \<in> set stdDirection"
      from z True have c: "cur < 0" by simp
      from lookLoop_neg_zero[OF ll c _ z(2,3)] z(1)
      have "\<forall>i\<in>set idx4. \<not> valid_dir s1 x y v (stdDirection ! ((i + offset) mod 4))" by simp
      with rotation_covers[OF d, of offset] valid_dir_maze[OF ms1]
      show "\<not> valid_dir s x y v d" by auto
    qed
    with res v2 show ?thesis by auto
  next
    case False
    then have n0: "n2 = 0" by simp
    from "1.prems"(1) r ll False eqs
    have fl: "findLoop x y v (cur - shortfall ml2) (n2, d2, ml2, nc2, s2)
        = (cur', num', directions', ml', nc', s')"
      by (simp add: findLoop.simps[of x y v cur])
    have r': "(offset, s1) = randIntn 4 s0" using r eqs by simp
    have ll': "(n2, d2, ml2, nc2, s2) = lookLoop x y v cur offset idx4 (num0, dirs0, ml0, nc0, s1)"
      using ll eqs by simp
    have acc: "(n2, d2, ml2, nc2, s2) = (0, d2, ml2, nc2, s2)" using n0 by simp
    from "1.IH"[OF r' ll' refl refl refl False fl acc v2(2)] valid_dir_maze[OF ms2]
    show ?thesis by simp
  qed
qed

lemma valid_dir_origin:
  "valid_dir (setMaze s x y c) x y v d = valid_dir s x y v d"
  by (auto simp: valid_dir_def stdDirection_def)

lemma findDirections_valid:
  assumes fd: "findDirections s x y len v directions = (num, len', directions', s')"
    and len: "length directions = 4"
  shows "length directions' = 4 \<and> num \<le> 4 \<and> (\<forall>k<num. valid_dir s x y v (directions' ! k)) \<and>
         (0 < num \<longrightarrow> x > 1 \<and> y > 1 \<and> (v = Wall \<longrightarrow> getMaze s x y = Path)) \<and>
         (num = 0 \<and> x > 1 \<and> y > 1 \<and> (v = Wall \<longrightarrow> getMaze s x y = Path)
            \<longrightarrow> (\<forall>d\<in>set stdDirection. \<not> valid_dir s x y v d))"
  using fd
proof (cases rule: findDirections_cases)
  case skip
  with len show ?thesis by simp
next
  case (run cur ml nc s2)
  from findLoop_valid[OF run(2) refl len] run(1)
  show ?thesis by (simp add: valid_dir_origin split: if_splits)
qed

section \<open>Carving, step by step\<close>

lemma same_grid_refl [simp]: "same_grid s s"
  by (simp add: same_grid_def)

lemma same_grid_trans: "same_grid a b \<Longrightarrow> same_grid b c \<Longrightarrow> same_grid a c"
  by (simp add: same_grid_def)

lemma findDirections_same_grid:
  assumes "findDirections s x y len v directions = (num, len', directions', s')"
    and "getMaze s x y \<noteq> Check"
  shows "same_grid s s'"
  using findDirections_frame[OF assms(1)] findDirections_maze_eq[OF assms(2), of len v directions]
    assms(1)
  by (simp add: same_grid_def probe_frame_def)

lemma randIntn_same_grid: "same_grid s (snd (randIntn n s))"
  by (simp add: randIntn_def same_grid_def split: list.splits)

lemma randIntn_less: "0 < n \<Longrightarrow> fst (randIntn n s) < n"
  by (simp add: randIntn_def split: list.splits)

lemma getMaze_same_grid: "same_grid s s' \<Longrightarrow> getMaze s' x y = getMaze s x y"
  by (simp add: same_grid_def getMaze_def)

lemma valid_dir_same_grid: "same_grid s s' \<Longrightarrow> valid_dir s' x y v d = valid_dir s x y v d"
  using valid_dir_maze[of s' s x y v d] by (simp add: same_grid_def)

lemma carveLoop_Suc:
  assumes nc: "getMaze s x y \<noteq> Check" and len: "length directions = 4"
    and fd: "findDirections s x y cur Wall directions = (num, cur', directions', s1)"
  shows "same_grid s s1 \<and> length directions' = 4 \<and>
         carveLoop (Suc n) x y cur directions pl s =
           (if num = 0 then Some (x, y, pl, s1)
            else carveLoop n (x + dir_x (directions' ! fst (randIntn num s1)))
                   (y + dir_y (directions' ! fst (randIntn num s1))) cur' directions' (pl + 1)
                   (carveStep (snd (randIntn num s1)) x y (directions' ! fst (randIntn num s1)))) \<and>
         (0 < num \<longrightarrow> x > 1 \<and> y > 1 \<and> getMaze s x y = Path \<and>
            valid_dir s x y Wall (directions' ! fst (randIntn num s1))) \<and>
         (num = 0 \<and> x > 1 \<and> y > 1 \<and> getMaze s x y = Path
            \<longrightarrow> (\<forall>d\<in>set stdDirection. \<not> valid_dir s x y Wall d))"
proof -
  note v = findDirections_valid[OF fd len]
  note sg = findDirections_same_grid[OF fd nc]
  show ?thesis
  proof (cases "num = 0")
    case True
    with v sg fd show ?thesis by simp
  next
    case False
    obtain dir s2 where r: "randIntn num s1 = (dir, s2)" by (cases "randIntn num s1")
    have dl: "dir < num" using randIntn_less[of num s1] False r by simp
    have sg2: "same_grid s s2" using same_grid_trans[OF sg randIntn_same_grid[of s1 num]] r by simp
    let ?d = "directions' ! dir"
    from v dl have vd: "valid_dir s x y Wall ?d" by simp
    then have vd2: "valid_dir s2 x y Wall ?d" using valid_dir_same_grid[OF sg2] by simp
    let ?hx = "x + dir_x ?d sdiv 2" and ?hy = "y + dir_y ?d sdiv 2"
    let ?fx = "x + dir_x ?d" and ?fy = "y + dir_y ?d"
    from vd2 have h: "getMaze s2 ?hx ?hy = Wall" and f: "getMaze s2 ?fx ?fy = Wall"
      and mem: "?d \<in> set stdDirection"
      by (simp_all add: valid_dir_def)
    have c1: "setCell s2 ?hx ?hy Path = (True, setMaze s2 ?hx ?hy Path)"
      using h by (simp add: setCell_eq)
    have ne: "(?fx, ?fy) \<noteq> (?hx, ?hy)" by (rule std_nonzero[OF mem])
    have c2: "setCell (setMaze s2 ?hx ?hy Path) ?fx ?fy Path
        = (True, setMaze (setMaze s2 ?hx ?hy Path) ?fx ?fy Path)"
      using f ne by (auto simp add: setCell_eq)
    have ml: "(setMaze (setMaze s2 ?hx ?hy Path) ?fx ?fy Path)
          \<lparr>mazeLen := int32 (mazeLen (setMaze (setMaze s2 ?hx ?hy Path) ?fx ?fy Path) + 1)\<rparr>
        = carveStep s2 x y ?d"
      by (simp add: carveStep_def setMaze_def)
    have "carveLoop (Suc n) x y cur directions pl s =
        carveLoop n ?fx ?fy cur' directions' (pl + 1) (carveStep s2 x y ?d)"
      using False fd r c1 c2 ml by (simp add: Let_def)
    with False r v sg vd show ?thesis by simp
  qed
qed

lemma getMaze_carveStep:
  "getMaze (carveStep s x y d) a b =
     (if (a = x + dir_x d \<and> b = y + dir_y d) \<or> (a = x + dir_x d sdiv 2 \<and> b = y + dir_y d sdiv 2)
      then Path else getMaze s a b)"
  by (simp add: carveStep_def getMaze_def setMaze_def)

lemma carveLoop_inv:
  assumes A1: "\<And>s s'. Inv s \<Longrightarrow> same_grid s s' \<Longrightarrow> Inv s'"
    and A2: "\<And>s x y d. Inv s \<Longrightarrow> getMaze s x y = Path \<Longrightarrow> x > 1 \<Longrightarrow> y > 1 \<Longrightarrow>
                even x \<Longrightarrow> even y \<Longrightarrow> valid_dir s x y Wall d \<Longrightarrow> Inv (carveStep s x y d)"
  shows "Inv s \<Longrightarrow> length directions = 4 \<Longrightarrow> getMaze s x y = Path \<Longrightarrow>
     carveLoop n x y cur directions pl s = Some (x', y', pl', s') \<Longrightarrow> even x \<Longrightarrow> even y \<Longrightarrow>
       Inv s' \<and> pl \<le> pl' \<and> getMaze s' x' y' = Path \<and>
       (x > 1 \<and> y > 1 \<and> (\<exists>d\<in>set stdDirection. valid_dir s x y Wall d) \<longrightarrow> pl < pl')"
proof (induction n arbitrary: x y cur directions pl s)
  case 0
  then show ?case by simp
next
  case (Suc n)
  obtain num cur1 d1 s1 where
    fd: "findDirections s x y cur Wall directions = (num, cur1, d1, s1)"
    by (metis prod_cases4)
  have nc: "getMaze s x y \<noteq> Check" using Suc.prems(3) by simp
  note st = carveLoop_Suc[OF nc Suc.prems(2) fd, of n pl]
  from st have sg: "same_grid s s1" and l1: "length d1 = 4" by simp_all
  show ?case
  proof (cases "num = 0")
    case True
    with st Suc.prems(4) have res: "x' = x" "y' = y" "pl' = pl" "s' = s1" by simp_all
    have "Inv s1" by (rule A1[OF Suc.prems(1) sg])
    moreover have "getMaze s1 x y = Path" using getMaze_same_grid[OF sg] Suc.prems(3) by simp
    moreover have "\<not> (x > 1 \<and> y > 1 \<and> (\<exists>d\<in>set stdDirection. valid_dir s x y Wall d))"
      using st True Suc.prems(3) by auto
    ultimately show ?thesis using res by simp
  next
    case False
    let ?k = "fst (randIntn num s1)"
    let ?s2 = "snd (randIntn num s1)"
    let ?d = "d1 ! ?k"
    from st False have pos: "x > 1" "y > 1" and vd: "valid_dir s x y Wall ?d" by simp_all
    have sg2: "same_grid s ?s2" by (rule same_grid_trans[OF sg randIntn_same_grid])
    have i2: "Inv ?s2" by (rule A1[OF Suc.prems(1) sg2])
    have g2: "getMaze ?s2 x y = Path" using getMaze_same_grid[OF sg2] Suc.prems(3) by simp
    have vd2: "valid_dir ?s2 x y Wall ?d" using valid_dir_same_grid[OF sg2] vd by simp
    have i3: "Inv (carveStep ?s2 x y ?d)" by (rule A2[OF i2 g2 pos Suc.prems(5,6) vd2])
    have mem: "?d \<in> set stdDirection" using vd by (simp add: valid_dir_def)
    have ev: "even (x + dir_x ?d)" "even (y + dir_y ?d)"
      using mem Suc.prems(5,6) by (auto simp: stdDirection_def)
    have g3: "getMaze (carveStep ?s2 x y ?d) (x + dir_x ?d) (y + dir_y ?d) = Path"
      by (simp add: getMaze_carveStep)
    from st False Suc.prems(4)
    have cl: "carveLoop n (x + dir_x ?d) (y + dir_y ?d) cur1 d1 (pl + 1) (carveStep ?s2 x y ?d)
        = Some (x', y', pl', s')" by simp
    from Suc.IH[OF i3 l1 g3 cl ev] show ?thesis by simp
  qed
qed

lemma no_check_same_grid: "same_grid s s' \<Longrightarrow> no_check s \<Longrightarrow> no_check s'"
  by (simp add: same_grid_def no_check_def)

lemma straightThru_same_grid: "same_grid s s' \<Longrightarrow> straightThru s' x y v = straightThru s x y v"
  by (simp add: same_grid_def straightThru_def getMaze_def)

lemma can_start_same_grid: "same_grid s s' \<Longrightarrow> can_start s' x y = can_start s x y"
  using valid_dir_same_grid[of s s' x y Wall] straightThru_same_grid[of s s' x y Path]
    getMaze_same_grid[of s s' x y]
  by (simp add: can_start_def)

lemma carving_complete_same_grid:
  "same_grid s s' \<Longrightarrow> carving_complete s' = carving_complete s"
  using can_start_same_grid[of s s'] by (simp add: carving_complete_def same_grid_def)

lemma setCell_Path_same_grid:
  "getMaze s x y = Path \<Longrightarrow> same_grid s (snd (setCell (s\<lparr>numPaths := n\<rparr>) x y Path))"
  by (simp add: setCell_eq getMaze_def same_grid_def)

lemma length_newDirections [simp]: "length newDirections = 4"
  by (simp add: newDirections_def)

lemma carvePath_inv:
  assumes A1: "\<And>s s'. Inv s \<Longrightarrow> same_grid s s' \<Longrightarrow> Inv s'"
    and A2: "\<And>s x y d. Inv s \<Longrightarrow> getMaze s x y = Path \<Longrightarrow> x > 1 \<Longrightarrow> y > 1 \<Longrightarrow>
                even x \<Longrightarrow> even y \<Longrightarrow> valid_dir s x y Wall d \<Longrightarrow> Inv (carveStep s x y d)"
    and i0: "Inv (snd (setCell (s\<lparr>numPaths := int32 (numPaths s + 1)\<rparr>) x y Path))"
    and g0: "getMaze (snd (setCell (s\<lparr>numPaths := int32 (numPaths s + 1)\<rparr>) x y Path)) x y = Path"
    and ev: "even x" "even y"
    and cp: "carvePath fuel x y s = Some (b, x', y', s')"
  shows "Inv s' \<and> getMaze s' x' y' = Path \<and>
     (x > 1 \<and> y > 1 \<and>
      (\<exists>d\<in>set stdDirection.
          valid_dir (snd (setCell (s\<lparr>numPaths := int32 (numPaths s + 1)\<rparr>) x y Path)) x y Wall d)
        \<longrightarrow> b)"
proof -
  define s2 where "s2 = snd (setCell (s\<lparr>numPaths := int32 (numPaths s + 1)\<rparr>) x y Path)"
  have i2: "Inv s2" using i0 by (simp add: s2_def)
  have g2: "getMaze s2 x y = Path" using g0 by (simp add: s2_def)
  from cp obtain pl s3 where
    cl: "carveLoop fuel x y (depth s2) newDirections 0 s2 = Some (x', y', pl, s3)"
    and b: "b = (pl > 0)"
    and s': "s' = (if numThreads s3 < threads s3 then s3\<lparr>numThreads := int32 (numThreads s3 + 1)\<rparr> else s3)"
    by (auto simp: carvePath_def Let_def s2_def split: option.splits)
  from carveLoop_inv[of Inv, OF A1 A2 i2 length_newDirections g2 cl ev]
  have r: "Inv s3" "getMaze s3 x' y' = Path"
    "x > 1 \<and> y > 1 \<and> (\<exists>d\<in>set stdDirection. valid_dir s2 x y Wall d) \<longrightarrow> 0 < pl"
    by simp_all
  have sg: "same_grid s3 s'" by (simp add: s' same_grid_def)
  have "Inv s'" by (rule A1[OF r(1) sg])
  moreover have "getMaze s' x' y' = Path" using getMaze_same_grid[OF sg] r(2) by simp
  ultimately show ?thesis using r(3) b by (simp add: s2_def)
qed

lemma pathStartLoop_res:
  "pathStartLoop xs ys cs x0 y0 len directions s = (b, x', y', s') \<Longrightarrow>
     length directions = 4 \<Longrightarrow> 1 \<le> height s \<Longrightarrow> 1 \<le> width s \<Longrightarrow>
     same_grid s s' \<and> (b \<longrightarrow> can_start s x' y' \<and> x' > 1 \<and> y' > 1 \<and> even x' \<and> even y') \<and>
     (\<not> b \<longrightarrow> (\<forall>c\<in>set cs. \<not> can_start s (2 * ((xs + fst c) mod height s + 1))
                                       (2 * ((ys + snd c) mod width s + 1))))"
proof (induction cs arbitrary: x0 y0 len directions s)
  case Nil
  then show ?case by simp
next
  case (Cons c cs)
  obtain i j where c: "c = (i, j)" by (cases c)
  define x1 where "x1 = 2 * ((xs + i) mod height s + 1)"
  define y1 where "y1 = 2 * ((ys + j) mod width s + 1)"
  have pos: "x1 > 1" "y1 > 1"
    using Cons.prems(3,4) by (simp_all add: x1_def y1_def add_pos_nonneg)
  have step: "pathStartLoop xs ys (c # cs) x0 y0 len directions s =
      (if getMaze s x1 y1 = Path \<and> \<not> straightThru s x1 y1 Path then
         (case findDirections s x1 y1 len Wall directions of
            (num, len', directions', s') \<Rightarrow>
              if num > 0 then (True, x1, y1, s')
              else pathStartLoop xs ys cs x1 y1 len' directions' s')
       else pathStartLoop xs ys cs x1 y1 len directions s)"
    by (simp only: c x1_def y1_def pathStartLoop.simps Let_def)
  show ?case
  proof (cases "getMaze s x1 y1 = Path \<and> \<not> straightThru s x1 y1 Path")
    case False
    from Cons.prems(1)[unfolded step if_not_P[OF False]]
    have "pathStartLoop xs ys cs x1 y1 len directions s = (b, x', y', s')" .
    from Cons.IH[OF this Cons.prems(2,3,4)] False c show ?thesis
      by (auto simp: can_start_def x1_def y1_def)
  next
    case True
    obtain num len1 d1 s1 where
      fd: "findDirections s x1 y1 len Wall directions = (num, len1, d1, s1)"
      by (metis prod_cases4)
    have nc: "getMaze s x1 y1 \<noteq> Check" using True by simp
    note sg = findDirections_same_grid[OF fd nc]
    note v = findDirections_valid[OF fd Cons.prems(2)]
    show ?thesis
    proof (cases "num > 0")
      case nz: True
      with Cons.prems(1)[unfolded step if_P[OF True] fd]
      have res: "b" "x' = x1" "y' = y1" "s' = s1" by simp_all
      from v nz have "valid_dir s x1 y1 Wall (d1 ! 0)" by simp
      then have "\<exists>d\<in>set stdDirection. valid_dir s x1 y1 Wall d"
        by (auto simp: valid_dir_def)
      with True have "can_start s x1 y1" by (simp add: can_start_def)
      with res sg pos show ?thesis by (simp add: x1_def y1_def)
    next
      case z: False
      with Cons.prems(1)[unfolded step if_P[OF True] fd]
      have pl: "pathStartLoop xs ys cs x1 y1 len1 d1 s1 = (b, x', y', s')"
        by simp
      have hw: "height s1 = height s" "width s1 = width s" using sg by (simp_all add: same_grid_def)
      from v have l1: "length d1 = 4" by simp
      from Cons.IH[OF pl l1] Cons.prems(3,4) hw
      have ih: "same_grid s1 s'" "b \<longrightarrow> can_start s1 x' y' \<and> x' > 1 \<and> y' > 1 \<and> even x' \<and> even y'"
        "\<not> b \<longrightarrow> (\<forall>c\<in>set cs. \<not> can_start s1 (2 * ((xs + fst c) mod height s + 1))
                                       (2 * ((ys + snd c) mod width s + 1)))"
        by simp_all
      from v z True pos have "\<not> can_start s x1 y1" by (simp add: can_start_def)
      with ih can_start_same_grid[OF sg] same_grid_trans[OF sg ih(1)] c
      show ?thesis by (simp add: x1_def y1_def)
    qed
  qed
qed

lemma scanOrder_mem:
  "(i, j) \<in> set (scanOrder s) \<longleftrightarrow> 0 \<le> i \<and> i < height s \<and> 0 \<le> j \<and> j < width s"
proof -
  have *: "(i, j) \<in> Pair a ` S \<longleftrightarrow> a = i \<and> j \<in> S" for a and S :: "int set"
    by auto
  have "(i, j) \<in> set (scanOrder s) \<longleftrightarrow> (\<exists>a\<in>{0..height s - 1}. a = i \<and> j \<in> {0..width s - 1})"
    by (simp add: scanOrder_def *)
  also have "\<dots> \<longleftrightarrow> i \<in> {0..height s - 1} \<and> j \<in> {0..width s - 1}" by blast
  finally show ?thesis by auto
qed

lemma mod_shift_surj:
  fixes a h xs :: int
  assumes "0 \<le> a" "a < h"
  shows "\<exists>i. 0 \<le> i \<and> i < h \<and> (xs + i) mod h = a"
proof -
  let ?i = "(a - xs) mod h"
  have "0 \<le> ?i \<and> ?i < h" using assms by simp
  moreover have "(xs + ?i) mod h = a"
  proof -
    have "(xs + ?i) mod h = (xs + (a - xs)) mod h" by (simp add: mod_add_right_eq)
    also have "\<dots> = a" using assms by simp
    finally show ?thesis .
  qed
  ultimately show ?thesis by blast
qed

lemma findPathStart_res:
  assumes fp: "findPathStart x0 y0 s = (b, x', y', s')"
    and h: "1 \<le> height s" and w: "1 \<le> width s"
  shows "same_grid s s' \<and> (b \<longrightarrow> can_start s x' y' \<and> x' > 1 \<and> y' > 1 \<and> even x' \<and> even y') \<and>
         (\<not> b \<longrightarrow> carving_complete s)"
proof -
  obtain xs s1 where r1: "randIntn (nat (height s)) s = (xs, s1)"
    by (cases "randIntn (nat (height s)) s")
  obtain ys s2 where r2: "randIntn (nat (width s1)) s1 = (ys, s2)"
    by (cases "randIntn (nat (width s1)) s1")
  have sg1: "same_grid s s1" using randIntn_same_grid[of s "nat (height s)"] r1 by simp
  have sg2: "same_grid s1 s2" using randIntn_same_grid[of s1 "nat (width s1)"] r2 by simp
  note sg12 = same_grid_trans[OF sg1 sg2]
  have hw: "height s2 = height s" "width s2 = width s" using sg12 by (simp_all add: same_grid_def)
  from fp r1 r2
  have pl: "pathStartLoop (int xs) (int ys) (scanOrder s2) x0 y0 (- 1) newDirections s2
      = (b, x', y', s')"
    by (simp add: findPathStart_def)
  from pathStartLoop_res[OF pl length_newDirections] h w hw
  have r: "same_grid s2 s'" "b \<longrightarrow> can_start s2 x' y' \<and> x' > 1 \<and> y' > 1 \<and> even x' \<and> even y'"
    "\<not> b \<longrightarrow> (\<forall>c\<in>set (scanOrder s2). \<not> can_start s2 (2 * ((int xs + fst c) mod height s + 1))
                                       (2 * ((int ys + snd c) mod width s + 1)))"
    by simp_all
  have "carving_complete s" if nb: "\<not> b"
    unfolding carving_complete_def
  proof (intro allI impI)
    fix i j assume ij: "0 \<le> i \<and> i < height s \<and> 0 \<le> j \<and> j < width s"
    from mod_shift_surj[of i "height s" "int xs"] ij
    obtain i' where i': "0 \<le> i'" "i' < height s" "(int xs + i') mod height s = i" by blast
    from mod_shift_surj[of j "width s" "int ys"] ij
    obtain j' where j': "0 \<le> j'" "j' < width s" "(int ys + j') mod width s = j" by blast
    have "(i', j') \<in> set (scanOrder s2)" using i' j' hw by (simp add: scanOrder_mem)
    with r(3) nb i'(3) j'(3) have "\<not> can_start s2 (2 * (i + 1)) (2 * (j + 1))" by force
    then show "\<not> can_start s (2 * (i + 1)) (2 * (j + 1))"
      using can_start_same_grid[OF sg12] by simp
  qed
  with r same_grid_trans[OF sg12 r(1)] can_start_same_grid[OF sg12]
  show ?thesis by simp
qed

lemma carvePathsLoop_inv:
  assumes A1: "\<And>s s'. Inv s \<Longrightarrow> same_grid s s' \<Longrightarrow> Inv s'"
    and A2: "\<And>s x y d. Inv s \<Longrightarrow> getMaze s x y = Path \<Longrightarrow> x > 1 \<Longrightarrow> y > 1 \<Longrightarrow>
                even x \<Longrightarrow> even y \<Longrightarrow> valid_dir s x y Wall d \<Longrightarrow> Inv (carveStep s x y d)"
    and A4: "\<And>s. Inv s \<Longrightarrow> 1 \<le> height s \<and> 1 \<le> width s"
  shows "Inv s \<Longrightarrow> carvePathsLoop n x y s = Some s' \<Longrightarrow> Inv s' \<and> carving_complete s'"
proof (induction n arbitrary: x y s)
  case 0
  then show ?case by simp
next
  case (Suc n)
  obtain b x1 y1 s1 where fp: "findPathStart x y s = (b, x1, y1, s1)"
    by (metis prod_cases4)
  from findPathStart_res[OF fp] A4[OF Suc.prems(1)]
  have r: "same_grid s s1" "b \<longrightarrow> can_start s x1 y1 \<and> x1 > 1 \<and> y1 > 1 \<and> even x1 \<and> even y1"
    "\<not> b \<longrightarrow> carving_complete s" by simp_all
  have i1: "Inv s1" by (rule A1[OF Suc.prems(1) r(1)])
  show ?case
  proof (cases b)
    case False
    with Suc.prems(2) fp have "s' = s1" by simp
    with i1 r(3) False carving_complete_same_grid[OF r(1)] show ?thesis by simp
  next
    case True
    with r(2) can_start_same_grid[OF r(1)] have cs: "can_start s1 x1 y1" "x1 > 1" "y1 > 1"
      and ev: "even x1" "even y1"
      by simp_all
    then have g1: "getMaze s1 x1 y1 = Path" by (simp add: can_start_def)
    let ?s2 = "snd (setCell (s1\<lparr>numPaths := int32 (numPaths s1 + 1)\<rparr>) x1 y1 Path)"
    have sg2: "same_grid s1 ?s2" by (rule setCell_Path_same_grid[OF g1])
    have i2: "Inv ?s2" by (rule A1[OF i1 sg2])
    from cs have "\<exists>d\<in>set stdDirection. valid_dir ?s2 x1 y1 Wall d"
      using valid_dir_same_grid[OF sg2] by (simp add: can_start_def)
    note ex = this
    from Suc.prems(2) fp True obtain b2 x2 y2 s2 where
      cp: "carvePath n x1 y1 s1 = Some (b2, x2, y2, s2)"
      by (auto split: option.splits)
    have g2: "getMaze ?s2 x1 y1 = Path" using getMaze_same_grid[OF sg2] g1 by simp
    from carvePath_inv[of Inv, OF A1 A2 i2 g2 ev cp] cs ex
    have c: "Inv s2" "b2" by simp_all
    from Suc.prems(2) fp True cp c(2)
    have "carvePathsLoop n x2 y2 s2 = Some s'" by simp
    from Suc.IH[OF c(1) this] show ?thesis .
  qed
qed

lemma carvePaths_inv:
  assumes A1: "\<And>s s'. Inv s \<Longrightarrow> same_grid s s' \<Longrightarrow> Inv s'"
    and A2: "\<And>s x y d. Inv s \<Longrightarrow> getMaze s x y = Path \<Longrightarrow> x > 1 \<Longrightarrow> y > 1 \<Longrightarrow>
                even x \<Longrightarrow> even y \<Longrightarrow> valid_dir s x y Wall d \<Longrightarrow> Inv (carveStep s x y d)"
    and A4: "\<And>s. Inv s \<Longrightarrow> 1 \<le> height s \<and> 1 \<le> width s"
    and i0: "Inv (snd (setCell (s\<lparr>numPaths := int32 (numPaths s + 1)\<rparr>) x y Path))"
    and g0: "getMaze (snd (setCell (s\<lparr>numPaths := int32 (numPaths s + 1)\<rparr>) x y Path)) x y = Path"
    and pos: "x > 0" "y > 0" and ev: "even x" "even y"
    and cp: "carvePaths fuel x y s = Some s'"
  shows "Inv s' \<and> carving_complete s'"
proof -
  from cp pos obtain b x1 y1 s1 where
    c1: "carvePath fuel x y s = Some (b, x1, y1, s1)"
    and c2: "carvePathsLoop fuel x1 y1 s1 = Some s'"
    by (auto simp: carvePaths_def split: option.splits)
  from carvePath_inv[of Inv, OF A1 A2 i0 g0 ev c1] have "Inv s1" by simp
  from carvePathsLoop_inv[of Inv, OF A1 A2 A4 this c2] show ?thesis .
qed

section \<open>The grid after initialization\<close>

lemma fold_fun_upd:
  "fold (\<lambda>j m. m(h j := v)) js m c = (if c \<in> h ` set js then v else m c)"
  by (induction js arbitrary: m) auto

lemma fold_setMaze:
  "fold (\<lambda>j u. setMaze u (f j) (g j) v) js s
     = s\<lparr>maze := fold (\<lambda>j m. m((f j, g j) := v)) js (maze s)\<rparr>"
proof (induction js arbitrary: s)
  case Nil
  then show ?case by simp
next
  case (Cons j js)
  show ?case unfolding fold_simps(2) Cons.IH by (simp add: setMaze_def)
qed

lemma fold_fold_setMaze:
  "fold (\<lambda>i t. fold (\<lambda>j u. setMaze u i j v) J t) I s
     = s\<lparr>maze := fold (\<lambda>i m. fold (\<lambda>j m'. m'((i, j) := v)) J m) I (maze s)\<rparr>"
proof (induction I arbitrary: s)
  case Nil
  then show ?case by simp
next
  case (Cons i I)
  show ?case unfolding fold_simps(2) Cons.IH fold_setMaze[where f = "\<lambda>j. i" and g = "\<lambda>j. j"]
    by simp
qed

lemma fold_setMaze2:
  "fold (\<lambda>i t. setMaze (setMaze t (f i) (g i) v) (f' i) (g' i) v) I s
     = s\<lparr>maze := fold (\<lambda>i m. m((f i, g i) := v, (f' i, g' i) := v)) I (maze s)\<rparr>"
proof (induction I arbitrary: s)
  case Nil
  then show ?case by simp
next
  case (Cons i I)
  show ?case unfolding fold_simps(2) Cons.IH by (simp add: setMaze_def)
qed

lemma fold_fun_upd2:
  "fold (\<lambda>i m. m(h i := v, h' i := v)) I m c
     = (if c \<in> h ` set I \<or> c \<in> h' ` set I then v else m c)"
  by (induction I arbitrary: m) auto

lemma fold_fold_fun_upd:
  "fold (\<lambda>i m. fold (\<lambda>j m'. m'((i, j) := v)) J m) I m c
     = (if fst c \<in> set I \<and> snd c \<in> set J then v else m c)"
proof (induction I arbitrary: m)
  case Nil
  then show ?case by simp
next
  case (Cons i I)
  show ?case
    unfolding fold_simps(2) Cons.IH
    by (cases c) (auto simp: fold_fun_upd[where h = "\<lambda>j. (i, j)"])
qed

lemma initializeMaze_res:
  assumes im: "initializeMaze s = (x, y, s')" and h: "1 \<le> height s" and w: "1 \<le> width s"
  shows "height s' = height s \<and> width s' = width s \<and> threads s' = threads s \<and>
         depth s' = depth s \<and> mazeLen s' = 0 \<and> begX s' = 2 \<and> endX s' = 2 * height s \<and>
         maxX s' = 2 * (height s + 1) + 1 \<and> maxY s' = 2 * (width s + 1) + 1"
    and "maze s' = (\<lambda>c. if onBorder s c then Path
                         else if 1 \<le> fst c \<and> fst c \<le> 2 * height s + 1 \<and>
                                 1 \<le> snd c \<and> snd c \<le> 2 * width s + 1 then Wall
                         else maze s c)"
    and "2 \<le> x \<and> x \<le> 2 * height s \<and> even x \<and> 2 \<le> y \<and> y \<le> 2 * width s \<and> even y"
proof -
  define s1 where "s1 = s\<lparr>maxChecks := 0, mazeLen := 0, numThreads := 0, numPaths := 0,
                 numCheckExceeded := 0,
                 maxX := 2 * (height s + 1) + 1, maxY := 2 * (width s + 1) + 1\<rparr>"
  define M where "M = (\<lambda>c. if onBorder s c then Path
                         else if 1 \<le> fst c \<and> fst c \<le> 2 * height s + 1 \<and>
                                 1 \<le> snd c \<and> snd c \<le> 2 * width s + 1 then Wall
                         else maze s c)"
  have s2: "borderRows (borderColumns (fillWalls s1)) = s1\<lparr>maze := M\<rparr>"
  proof -
    have hw: "height s1 = height s" "width s1 = width s"
      "maxX s1 = 2 * (height s + 1) + 1" "maxY s1 = 2 * (width s + 1) + 1"
      by (simp_all add: s1_def)
    have "maze (borderRows (borderColumns (fillWalls s1))) c = M c" for c
      unfolding borderRows_def borderColumns_def fillWalls_def
      by (cases c)
         (auto simp: fold_fold_setMaze fold_setMaze2 fold_fun_upd2 fold_fold_fun_upd hw M_def
            onBorder_def s1_def image_iff)
    then have "maze (borderRows (borderColumns (fillWalls s1))) = M" by (rule ext)
    moreover have "borderRows (borderColumns (fillWalls s1))
        = s1\<lparr>maze := maze (borderRows (borderColumns (fillWalls s1)))\<rparr>"
      unfolding borderRows_def borderColumns_def fillWalls_def
      by (simp add: fold_fold_setMaze fold_setMaze2)
    ultimately show ?thesis by simp
  qed
  obtain rx s3 where r1: "randIntn (nat (height s)) (s1\<lparr>maze := M\<rparr>) = (rx, s3)"
    by (cases "randIntn (nat (height s)) (s1\<lparr>maze := M\<rparr>)")
  obtain ry s4 where r2: "randIntn (nat (width s)) s3 = (ry, s4)"
    by (cases "randIntn (nat (width s)) s3")
  have f3: "s3 = s1\<lparr>maze := M\<rparr> \<or> (\<exists>r. s3 = s1\<lparr>maze := M, rnd := r\<rparr>)"
    using r1 by (auto simp: randIntn_def split: list.splits)
  have f4: "s4 = s3 \<or> (\<exists>r. s4 = s3\<lparr>rnd := r\<rparr>)"
    using r2 by (auto simp: randIntn_def split: list.splits)
  have w3: "width s3 = width s" "height s3 = height s" using f3 by (auto simp: s1_def)
  have res: "x = 2 * (int rx + 1)" "y = 2 * (int ry + 1)" "s' = s4\<lparr>begX := 2, endX := 2 * height s4\<rparr>"
    using im s2 r1 r2 w3
    by (simp_all add: initializeMaze_def Let_def s1_def[symmetric])
       (simp_all add: s1_def)
  have rx: "rx < nat (height s)" using randIntn_less[of "nat (height s)" "s1\<lparr>maze := M\<rparr>"] h r1 by simp
  have ry: "ry < nat (width s)" using randIntn_less[of "nat (width s)" s3] w r2 by simp
  show "2 \<le> x \<and> x \<le> 2 * height s \<and> even x \<and> 2 \<le> y \<and> y \<le> 2 * width s \<and> even y"
    using res rx ry by auto
  show "maze s' = M" using res f3 f4 by auto
  show "height s' = height s \<and> width s' = width s \<and> threads s' = threads s \<and>
         depth s' = depth s \<and> mazeLen s' = 0 \<and> begX s' = 2 \<and> endX s' = 2 * height s \<and>
         maxX s' = 2 * (height s + 1) + 1 \<and> maxY s' = 2 * (width s + 1) + 1"
    using res f3 f4 by (auto simp: s1_def)
qed

section \<open>The probe in the solver\<close>

text \<open>With a negative length \<^verbatim>\<open>look\<close> only tests the two cells: the directions found
  are the open ones, in the rotated order.\<close>

lemma dirTable_eta [simp]:
  "\<lparr>dir_x = dir_x d, dir_y = dir_y d, dir_heading = dir_heading d\<rparr> = (d :: dirTable)"
  by simp

lemma lookLoop_neg:
  assumes "len < 0"
  shows "lookLoop x y v len offset is (num, dirs, ml, nc, s) =
     (case fold (\<lambda>d (n, ds). (Suc n, ds[n := d]))
             (filter (\<lambda>d. x > 1 \<and> y > 1 \<and>
                           getMaze s (x + dir_x d sdiv 2) (y + dir_y d sdiv 2) = v \<and>
                           getMaze s (x + dir_x d) (y + dir_y d) = v)
                (map (\<lambda>i. stdDirection ! ((i + offset) mod 4)) is))
             (num, dirs) of
        (n', ds') \<Rightarrow> (n', ds', ml, nc, s))"
proof (induction "is" arbitrary: num dirs)
  case Nil
  then show ?case by simp
next
  case (Cons i "is")
  show ?case
    by (simp add: look_neg[OF assms] Let_def Cons.IH)
qed

lemma findDirections_neg:
  assumes "len < 0" and "v \<noteq> Wall"
  shows "findDirections s x y len v dirs =
     (case randIntn 4 s of
        (offset, s1) \<Rightarrow>
          (case fold (\<lambda>d (n, ds). (Suc n, ds[n := d]))
                  (filter (\<lambda>d. x > 1 \<and> y > 1 \<and>
                                getMaze s (x + dir_x d sdiv 2) (y + dir_y d sdiv 2) = v \<and>
                                getMaze s (x + dir_x d) (y + dir_y d) = v)
                     (rotated offset))
                  (0, dirs) of
             (n', ds') \<Rightarrow>
               (n', (if len < depth s then len + 1 else len), ds', fd_finish s1 x y 0)))"
proof -
  obtain offset s1 where r: "randIntn 4 s = (offset, s1)" by (cases "randIntn 4 s")
  have m: "getMaze s1 a b = getMaze s a b" for a b
    using maze_randIntn[of 4 s] r by (simp add: getMaze_def)
  have d: "depth s1 = depth s" using r by (auto simp: randIntn_def split: list.splits)
  show ?thesis
    using assms
    by (simp add: findDirections_def findLoop.simps[of x y v len] r lookLoop_neg m d
          rotated_def fd_finish_def Let_def split: prod.splits)
qed

section \<open>Claims about the cell claim and the probe\<close>

lemma setCell_run_alone:
  "setCell_run v [Own, Own, Own, Own] (Guard1, c) =
     (Return (c \<noteq> Check \<and> c \<noteq> v), if c \<noteq> Check \<and> c \<noteq> v then v else c)"
  by simp




text \<open>
  C4. Two carving tasks call \<^verbatim>\<open>findDirections\<close> for the same room, which holds
  \<^verbatim>\<open>path\<close>. The events on the cell, seen from the second task, whose claim
  \<^verbatim>\<open>setCell(x, y, check)\<close> this is: its two guard loads; the swap of the first task (its
  claim); its own swap, which finds \<^verbatim>\<open>check\<close>; the store of \<^verbatim>\<open>path\<close> with which the
  first task releases the room at the end of its \<^verbatim>\<open>findDirections\<close>; its own
  write-back. The call returns false, so the second task leaves \<^verbatim>\<open>findDirections\<close>
  without a store, and the room holds \<^verbatim>\<open>check\<close> when both tasks have returned.
\<close>

theorem origin_claim_race:
  "setCell_run Check [Own, Own, Other Check, Own, Other Path, Own] (Guard1, Path)
     = (Return False, Check)"
  by simp

lemma checkOrphan_counters:
  "probes (snd (checkOrphan s x y dx dy len)) = probes s \<and>
   numCheckExceeded (snd (checkOrphan s x y dx dy len)) = numCheckExceeded s \<and>
   depth (snd (checkOrphan s x y dx dy len)) = depth s"
  by (simp add: checkOrphan_def setCell_eq setMaze_def Let_def)

text \<open>
  C7. One lookahead search is one call of \<^verbatim>\<open>look\<close>. The number of probe steps it
  performs, the growth of \<open>probes\<close>, is at most \<^verbatim>\<open>10*(depth + 1)\<close> and is what the
  call adds to \<^verbatim>\<open>numChecks\<close>; the call returns 0 or 1. If \<^verbatim>\<open>numCheckExceeded\<close>
  has changed, the search has used the whole budget and returns 0. A call of
  \<^verbatim>\<open>checkDirections\<close> that finds the budget used up (\<^verbatim>\<open>*checks >= limit\<close>, with a
  length still to go) returns false without a probe step and adds one to
  \<^verbatim>\<open>numCheckExceeded\<close>, an \<^verbatim>\<open>int32\<close> that wraps around.
\<close>

theorem look_probe_budget:
  assumes lk: "look hdg x y dx dy num v directions len ml nc s = (r, directions', len', ml', nc', s')"
    and d: "- 1 \<le> depth s"
  shows "0 \<le> probes s' - probes s \<and> probes s' - probes s \<le> 10 * (depth s + 1) \<and>
         nc' - nc = probes s' - probes s \<and> (r = 0 \<or> r = 1) \<and>
         (numCheckExceeded s' \<noteq> numCheckExceeded s
            \<longrightarrow> r = 0 \<and> probes s' - probes s = 10 * (depth s + 1)) \<and>
         (0 \<le> l \<and> limit \<le> c
            \<longrightarrow> checkDirections s x y dx dy limit v l ml c nc =
                  (False, l, ml, c, nc, s\<lparr>numCheckExceeded := int32 (numCheckExceeded s + 1)\<rparr>))"
proof -
  have ex: "0 \<le> l \<and> limit \<le> c
            \<longrightarrow> checkDirections s x y dx dy limit v l ml c nc =
                  (False, l, ml, c, nc, s\<lparr>numCheckExceeded := int32 (numCheckExceeded s + 1)\<rparr>)"
    by (simp add: checkDirections.simps[of s x y dx dy])
  show ?thesis
  proof (cases "x > 1 \<and> y > 1 \<and> getMaze s (x + dx sdiv 2) (y + dy sdiv 2) = v \<and>
         getMaze s (x + dx) (y + dy) = v")
    case False
    with lk have "r = 0" "nc' = nc" "s' = s" by (auto simp: look_def)
    with d ex show ?thesis by simp
  next
    case True
    obtain o1 s1 where co: "checkOrphan s x y dx dy len = (o1, s1)"
      by (cases "checkOrphan s x y dx dy len")
    have c1: "probes s1 = probes s" "numCheckExceeded s1 = numCheckExceeded s" "depth s1 = depth s"
      using checkOrphan_counters[of s x y dx dy len] co by simp_all
    show ?thesis
    proof (cases o1)
      case o1: True
      with lk True co have "r = 0" "nc' = nc" "s' = s1" by (simp_all add: look_def)
      with d ex c1 show ?thesis by simp
    next
      case False
      obtain m2 l2 ml2 c2 nc2 s2 where
        cd: "checkDirections s1 x y dx dy (10 * (depth s1 + 1)) v len ml 0 nc
               = (m2, l2, ml2, c2, nc2, s2)"
        by (metis prod_cases3)
      have res: "s' = s2" "nc' = nc2" "r = (if m2 then 1 else 0)"
        using lk True co False cd by (cases m2; simp add: look_def)+
      note b = cd_budget(1)[OF cd]
      have lim: "0 \<le> 10 * (depth s1 + 1)" using d c1 by simp
      from b lim have "0 \<le> c2" "c2 \<le> 10 * (depth s1 + 1)" "nc2 - nc = c2"
        "probes s2 - probes s1 = c2" by auto
      moreover have "numCheckExceeded s2 \<noteq> numCheckExceeded s1
          \<longrightarrow> \<not> m2 \<and> 10 * (depth s1 + 1) \<le> c2"
        using b by blast
      ultimately show ?thesis using res c1 ex by auto
    qed
  qed
qed

theorem look_probe_budget_witness:
  "- 1 \<le> depth (startState 1 2 0 0 []) \<and>
   look 4 2 2 0 2 0 Path newDirections 0 0 0 (startState 1 2 0 0 []) =
     (1, newDirections[0 := \<lparr>dir_x = 0, dir_y = 2, dir_heading = 4\<rparr>], 0, - 1, 1,
      (startState 1 2 0 0 [])\<lparr>probes := 1\<rparr>) \<and>
   probes ((startState 1 2 0 0 [])\<lparr>probes := 1\<rparr>) - probes (startState 1 2 0 0 []) = 1 \<and>
   10 * (depth (startState 1 2 0 0 []) + 1) = 10 \<and>
   checkDirections (startState 1 2 0 0 []) 2 2 0 2 10 Path 3 0 10 0 =
     (False, 3, 0, 10, 0, (startState 1 2 0 0 [])\<lparr>numCheckExceeded := 1\<rparr>)"
proof -
  have h: "- 1 \<le> depth (startState 1 2 0 0 [])" by (simp add: startState_def)
  have lk: "look 4 2 2 0 2 0 Path newDirections 0 0 0 (startState 1 2 0 0 []) =
     (1, newDirections[0 := \<lparr>dir_x = 0, dir_y = 2, dir_heading = 4\<rparr>], 0, - 1, 1,
      (startState 1 2 0 0 [])\<lparr>probes := 1\<rparr>)"
    by (simp add: look_def checkOrphan_def checkDirections.simps[of _ 2 2 0 2]
          checkDirections.simps[of _ 2 4 2 0] setCell_eq getMaze_def setMaze_def randIntn_def
          rotated_def idx4_def stdDirection_def startState_def fun_eq_iff)
  from look_probe_budget[OF lk h, of 3 10 10] show ?thesis
    by (simp add: lk) (simp add: startState_def int32_def)
qed

section \<open>Claim about the normalizer\<close>

text \<open>
  C6. When \<^verbatim>\<open>pushMidWallOpenings\<close> returns, no passage cell inside the border ring
  (one odd coordinate, rows 1 to \<open>2*height + 1\<close>, columns 1 to \<open>2*width + 1\<close>: the cells
  a sweep visits) is a mid-wall opening, and one more sweep moves nothing and leaves the
  state, with its count of pushes, as it is: running the normalizer again returns the
  same state.
\<close>

theorem normalizer_fixed_point:
  assumes "pushMidWallOpenings n s = Some s'"
  shows "(\<forall>i j. 1 \<le> i \<and> i \<le> 2 * height s' + 1 \<and> 1 \<le> j \<and> j \<le> 2 * width s' + 1 \<and> odd (i + j)
            \<longrightarrow> \<not> midWallOpening s' i j) \<and>
         pushSweep s' = (0, s') \<and>
         pushMidWallOpenings (Suc m) s' = Some s'"
proof -
  from pushMidWallOpenings_fixed[OF assms] have z: "pushSweep s' = (0, s')" .
  from pushSweep_zero[OF z] sweepCells_mem[of _ _ s']
  have "\<forall>i j. 1 \<le> i \<and> i \<le> 2 * height s' + 1 \<and> 1 \<le> j \<and> j \<le> 2 * width s' + 1 \<and> odd (i + j)
            \<longrightarrow> \<not> midWallOpening s' i j"
    by fastforce
  with z show ?thesis by simp
qed

theorem normalizer_fixed_point_witness:
  "pushMidWallOpenings (Suc (Suc 0)) ladder =
     Some (ladder\<lparr>maze := (maze ladder)((3, 4) := Wall, (3, 6) := Path), numWallPush := 1\<rparr>) \<and>
   pushSweep (ladder\<lparr>maze := (maze ladder)((3, 4) := Wall, (3, 6) := Path), numWallPush := 1\<rparr>)
     = (0, ladder\<lparr>maze := (maze ladder)((3, 4) := Wall, (3, 6) := Path), numWallPush := 1\<rparr>) \<and>
   midWallOpening ladder 3 4"
proof -
  have h: "pushMidWallOpenings (Suc (Suc 0)) ladder =
     Some (ladder\<lparr>maze := (maze ladder)((3, 4) := Wall, (3, 6) := Path), numWallPush := 1\<rparr>)"
    by (simp add: pushSweep_def sweepCells_def sweepRow_def upto_unfold pushStep_def
        midWallOpening_def getMaze_def setCell_eq setMaze_def ladder_def gridState_def
        startState_def int32_def)
  have m: "midWallOpening ladder 3 4"
    by (simp add: midWallOpening_def getMaze_def ladder_def gridState_def startState_def)
  from normalizer_fixed_point[OF h] h m show ?thesis by simp
qed

section \<open>Claims about the solver\<close>

text \<open>
  C9. The grid \<open>forkMaze\<close> with the openings above and below its upper left and lower
  left rooms. The single task solver returns path length 2 and turn count 2, and so
  does the solver with \<^verbatim>\<open>threads = 2\<close> when the scheduler always runs the oldest
  task. Under the schedule \<open>raceSched\<close> the two tasks that retreat from the dead ends
  both pass the test of \<^verbatim>\<open>backTrackPath\<close> at the junction \<open>(2, 4)\<close> and both run
  \<^verbatim>\<open>unfollowDir\<close> for the same step: path length and turn count are decremented
  twice, and the solver returns 1 and 1.
\<close>

theorem solver_tasks_race:
  "map_option (\<lambda>(x, y, s). (pathLen s, turnCnt s))
     (solveMaze 30 2 2 (snd (snd (createOpenings 2 2 forkMaze)))) = Some (2, 2) \<and>
   map_option (\<lambda>(x, y, s). (pathLen s, turnCnt s))
     (solveMaze 30 2 2 (snd (snd (createOpenings 2 2 (forkMaze\<lparr>threads := 2\<rparr>)))))
     = Some (2, 2) \<and>
   map_option (\<lambda>(x, y, s). (pathLen s, turnCnt s))
     (solveMaze 30 2 2
        (snd (snd (createOpenings 2 2 (forkMaze\<lparr>threads := 2, sched := raceSched\<rparr>)))))
     = Some (1, 1)"
  by code_simp

end
